theory Spec2Isabelle
  imports Complex_Main "HOL-Library.Sublist"
begin

section \<open>Python values and strings\<close>

text \<open>
  A Python \<open>str\<close> is modelled as a \<open>string\<close>, one \<open>char\<close> per character. Isabelle's
  \<open>char\<close> has 256 values: the values below 128 are the ASCII characters, the values from 128
  stand for the non-ASCII characters (the model ranges over the strings whose code points are
  below 256). Exceptions are values of the type \<open>exn\<close>; a function that can raise returns
  \<open>exn + 'a\<close>, with \<open>Inl\<close> for the exception.
\<close>

datatype exn =
    AttributeError
  | KeyError
  | TypeError
  | ValueError
  | BinasciiError
  | UnboundLocalError
  | PlaywrightError
  | RequestException string
  | HTTPError string

text \<open>\<open>requests.HTTPError\<close> is a subclass of \<open>RequestException\<close>.\<close>

fun is_RequestException :: "exn \<Rightarrow> bool" where
  "is_RequestException (RequestException m) = True"
| "is_RequestException (HTTPError m) = True"
| "is_RequestException e = False"

text \<open>
  The values \<open>json.loads\<close> produces, and \<open>bytes\<close> (a request's \<open>data\<close> may be bytes). A dict
  keeps its items in insertion order; its keys are pairwise distinct.
\<close>

datatype pyval =
    PNone
  | PBool bool
  | PInt int
  | PFloat rat
  | PStr string
  | PBytes string
  | PList "pyval list"
  | PDict "(string \<times> pyval) list"

text \<open>\<open>d.get(k)\<close>, with \<open>None\<close> as \<open>PNone\<close>.\<close>

definition dict_get :: "(string \<times> pyval) list \<Rightarrow> string \<Rightarrow> pyval" where
  "dict_get d k = (case map_of d k of None \<Rightarrow> PNone | Some v \<Rightarrow> v)"

text \<open>\<open>d[k] = v\<close>: an existing key keeps its place, a new key goes to the end.\<close>

fun dict_set :: "(string \<times> 'v) list \<Rightarrow> string \<Rightarrow> 'v \<Rightarrow> (string \<times> 'v) list" where
  "dict_set [] k v = [(k, v)]"
| "dict_set ((k', v') # d) k v = (if k' = k then (k, v) # d else (k', v') # dict_set d k v)"

definition is_ascii :: "char \<Rightarrow> bool" where
  "is_ascii c = ((of_char c :: nat) < 128)"

text \<open>\<open>s.split(sep)\<close> for a separator of one character: \<open>n\<close> separators give \<open>n + 1\<close> parts.\<close>

fun py_split :: "char \<Rightarrow> string \<Rightarrow> string list" where
  "py_split d [] = [[]]"
| "py_split d (c # cs) =
     (if c = d then [] # py_split d cs
      else (case py_split d cs of [] \<Rightarrow> [[c]] | p # ps \<Rightarrow> (c # p) # ps))"

text \<open>\<open>sub in s\<close> and \<open>s.startswith(p)\<close>, \<open>s.endswith(p)\<close>.\<close>

fun py_in :: "string \<Rightarrow> string \<Rightarrow> bool" where
  "py_in sub [] = (sub = [])"
| "py_in sub (c # cs) = (prefix sub (c # cs) \<or> py_in sub cs)"

definition startswith :: "string \<Rightarrow> string \<Rightarrow> bool" where
  "startswith s p = prefix p s"

definition endswith :: "string \<Rightarrow> string \<Rightarrow> bool" where
  "endswith s p = suffix p s"

section \<open>base64.urlsafe_b64decode\<close>

text \<open>
  The standard library's decoder, as \<open>looks_like_jwt\<close> calls it: \<open>urlsafe_b64decode\<close> encodes a
  \<open>str\<close> argument as ASCII (\<open>ValueError\<close> on a non-ASCII character), maps \<open>-\<close> to \<open>+\<close> and \<open>_\<close> to
  \<open>/\<close>, and hands the bytes to \<open>binascii.a2b_base64\<close> in its default, non-strict mode. That loop
  skips every character outside the alphabet, counts the alphabet characters modulo 4
  (\<open>quad_pos\<close>), stops at a pad sequence that completes a quad, and raises \<open>binascii.Error\<close> when
  the input ends inside a quad.
\<close>

definition b64_alphabet :: string where
  "b64_alphabet = ''ABCDEFGHIJKLMNOPQRSTUVWXYZabcdefghijklmnopqrstuvwxyz0123456789+/''"

fun index_of :: "'a \<Rightarrow> 'a list \<Rightarrow> nat option" where
  "index_of x [] = None"
| "index_of x (y # ys) = (if x = y then Some 0 else map_option Suc (index_of x ys))"

definition table_a2b_base64 :: "char \<Rightarrow> nat option" where
  "table_a2b_base64 c = index_of c b64_alphabet"

definition urlsafe_decode_translation :: "char \<Rightarrow> char" where
  "urlsafe_decode_translation c =
     (if c = CHR ''-'' then CHR ''+'' else if c = CHR ''_'' then CHR ''/'' else c)"

text \<open>
  The loop of \<open>a2b_base64\<close>: \<open>q\<close> is \<open>quad_pos\<close>, \<open>l\<close> is \<open>leftchar\<close>, \<open>out\<close> the bytes written so
  far. \<open>++pads\<close> is evaluated only when \<open>quad_pos >= 2\<close>.
\<close>

fun a2b_loop :: "nat \<Rightarrow> nat \<Rightarrow> nat \<Rightarrow> nat list \<Rightarrow> string \<Rightarrow> exn + nat list" where
  "a2b_loop q l pads out [] = (if q \<noteq> 0 then Inl BinasciiError else Inr out)"
| "a2b_loop q l pads out (c # cs) =
     (if c = CHR ''='' then
        (if 2 \<le> q \<and> 4 \<le> q + (pads + 1) then Inr out
         else a2b_loop q l (if 2 \<le> q then pads + 1 else pads) out cs)
      else (case table_a2b_base64 c of
        None \<Rightarrow> a2b_loop q l pads out cs
      | Some v \<Rightarrow>
          (if q = 0 then a2b_loop 1 v 0 out cs
           else if q = 1 then a2b_loop 2 (v mod 16) 0 (out @ [(l * 4 + v div 16) mod 256]) cs
           else if q = 2 then a2b_loop 3 (v mod 4) 0 (out @ [(l * 16 + v div 4) mod 256]) cs
           else a2b_loop 0 0 0 (out @ [(l * 64 + v) mod 256]) cs)))"

definition a2b_base64 :: "string \<Rightarrow> exn + nat list" where
  "a2b_base64 s = a2b_loop 0 0 0 [] s"

definition urlsafe_b64decode :: "string \<Rightarrow> exn + nat list" where
  "urlsafe_b64decode s =
     (if \<not> list_all is_ascii s then Inl ValueError
      else a2b_base64 (map urlsafe_decode_translation s))"

section \<open>api.py: looks_like_jwt\<close>

text \<open>The loop over the parts: the first part that does not decode gives \<open>False\<close>.\<close>

fun parts_decode :: "string list \<Rightarrow> bool" where
  "parts_decode [] = True"
| "parts_decode (p # ps) =
     (case urlsafe_b64decode (p @ ''==='') of
        Inl e \<Rightarrow> False
      | Inr b \<Rightarrow> parts_decode ps)"

fun looks_like_jwt :: "pyval \<Rightarrow> bool" where
  "looks_like_jwt (PStr token) =
     (let parts = py_split (CHR ''.'') token
      in if length parts \<noteq> 3 then False else parts_decode parts)"
| "looks_like_jwt v = False"

text \<open>
  The characters the decoder counts: the alphabet of its table after the URL-safe translation.
\<close>

definition is_b64_data :: "char \<Rightarrow> bool" where
  "is_b64_data c = (c \<in> set (b64_alphabet @ ''-_''))"

text \<open>
  The specification's wording, for comparison with \<open>looks_like_jwt\<close>: a segment is valid
  base64url data, padding tolerated, when it is made of characters of the URL-safe alphabet,
  followed by any number of \<open>=\<close>, and the number of alphabet characters is not 1 modulo 4.
\<close>

definition b64url_char :: "char \<Rightarrow> bool" where
  "b64url_char c =
     (c \<in> set ''ABCDEFGHIJKLMNOPQRSTUVWXYZabcdefghijklmnopqrstuvwxyz0123456789-_'')"

definition valid_base64url :: "string \<Rightarrow> bool" where
  "valid_base64url seg =
     (let body = takeWhile (\<lambda>c. c \<noteq> CHR ''='') seg;
          pad = dropWhile (\<lambda>c. c \<noteq> CHR ''='') seg
      in list_all b64url_char body \<and> list_all (\<lambda>c. c = CHR ''='') pad
         \<and> length body mod 4 \<noteq> 1)"

section \<open>pia.py, novelpia_epub.py: the chapter list and its final de-duplication\<close>

record Chapter =
  idx :: int
  title :: string
  url :: string

text \<open>
  The end of \<open>main\<close> in both scripts:
  \<^verbatim>\<open>
  dedup: Dict[str, Chapter] = {}
  for c in chapters:
      if c.url not in dedup and ("/viewer/" in c.url):
          dedup[c.url] = c
  chapters = list(dedup.values())
  chapters.sort(key=lambda c: c.idx)
  if args.max_chapters and args.max_chapters > 0:
      chapters = chapters[:args.max_chapters]
  \<close>
  The dict is an association list in insertion order; \<open>list.sort\<close> is stable, as \<open>sort_key\<close> is.
\<close>

fun dedup_loop :: "(string \<times> Chapter) list \<Rightarrow> Chapter list \<Rightarrow> (string \<times> Chapter) list" where
  "dedup_loop dedup [] = dedup"
| "dedup_loop dedup (c # cs) =
     (if map_of dedup (url c) = None \<and> py_in ''/viewer/'' (url c)
      then dedup_loop (dict_set dedup (url c) c) cs
      else dedup_loop dedup cs)"

definition finalize_chapters :: "int \<Rightarrow> Chapter list \<Rightarrow> Chapter list" where
  "finalize_chapters max_chapters chapters =
     (let dedup = dedup_loop [] chapters;
          chapters1 = map snd dedup;
          chapters2 = sort_key idx chapters1
      in if max_chapters \<noteq> 0 \<and> max_chapters > 0 then take (nat max_chapters) chapters2
         else chapters2)"

text \<open>The chapters the loop keeps, as a list function: used to state what the loop computes.\<close>

fun keep_first :: "string list \<Rightarrow> Chapter list \<Rightarrow> Chapter list" where
  "keep_first seen [] = []"
| "keep_first seen (c # cs) =
     (if url c \<notin> set seen \<and> py_in ''/viewer/'' (url c)
      then c # keep_first (seen @ [url c]) cs
      else keep_first seen cs)"

text \<open>Discovered references \<open>[A, B, A, C, B]\<close>, numbered in discovery order.\<close>

definition chapters_ABACB :: "Chapter list" where
  "chapters_ABACB =
     [\<lparr>idx = 1, title = ''a'', url = ''/viewer/A''\<rparr>,
      \<lparr>idx = 2, title = ''b'', url = ''/viewer/B''\<rparr>,
      \<lparr>idx = 3, title = ''a'', url = ''/viewer/A''\<rparr>,
      \<lparr>idx = 4, title = ''c'', url = ''/viewer/C''\<rparr>,
      \<lparr>idx = 5, title = ''b'', url = ''/viewer/B''\<rparr>]"

text \<open>
  Chapters that are not ordered by \<open>idx\<close>: \<open>A\<close> (2), \<open>B\<close> (1), \<open>C\<close> (1) and \<open>B\<close> again (2).
\<close>

definition chapters_unsorted :: "Chapter list" where
  "chapters_unsorted =
     [\<lparr>idx = 2, title = ''a'', url = ''/viewer/A''\<rparr>,
      \<lparr>idx = 1, title = ''b'', url = ''/viewer/B''\<rparr>,
      \<lparr>idx = 1, title = ''c'', url = ''/viewer/C''\<rparr>,
      \<lparr>idx = 2, title = ''b'', url = ''/viewer/B''\<rparr>]"

section \<open>pia.py, novelpia_epub.py: walk_next_chapters\<close>

text \<open>
  \<open>str(i)\<close> for an integer. CPython (3.11, and the patched releases before it) refuses to
  render or to read an integer of more than 4300 digits: \<open>str\<close>, an f-string and \<open>int\<close> raise
  \<open>ValueError\<close> there. \<open>py_str_int\<close> is the rendering itself, \<open>py_str\<close> the call with its limit.
  The attempt counters and status codes that the request log renders are small
  (\<open>http.client\<close> accepts status codes from 100 to 999 only).
\<close>

fun digits_of :: "nat \<Rightarrow> string" where
  "digits_of n =
     (if n < 10 then [''0123456789'' ! n]
      else digits_of (n div 10) @ [''0123456789'' ! (n mod 10)])"

declare digits_of.simps [simp del]

definition py_str_int :: "int \<Rightarrow> string" where
  "py_str_int i = (if i < 0 then CHR ''-'' # digits_of (nat (- i)) else digits_of (nat i))"

definition max_str_digits :: nat where
  "max_str_digits = 4300"

definition str_digits_ok :: "int \<Rightarrow> bool" where
  "str_digits_ok i = (length (digits_of (nat \<bar>i\<bar>)) \<le> max_str_digits)"

definition py_str :: "int \<Rightarrow> exn + string" where
  "py_str i = (if str_digits_ok i then Inr (py_str_int i) else Inl ValueError)"

text \<open>
  \<^verbatim>\<open>
  title = soup.title.get_text(strip=True) if soup.title else f"Chapter {idx}"
  chapters.append(Chapter(idx=idx, title=title or f"Chapter {idx}", url=url))
  \<close>
  The f-string is evaluated only where it is used.
\<close>

definition chapter_title :: "string option \<Rightarrow> int \<Rightarrow> exn + string" where
  "chapter_title soup_title i =
     (case soup_title of
        Some t \<Rightarrow>
          (if t \<noteq> [] then Inr t
           else (case py_str i of Inl e \<Rightarrow> Inl e | Inr s \<Rightarrow> Inr (''Chapter '' @ s)))
      | None \<Rightarrow> (case py_str i of Inl e \<Rightarrow> Inl e | Inr s \<Rightarrow> Inr (''Chapter '' @ s)))"

text \<open>
  The browser is a function of the navigation history (the references loaded so far, the
  current one last): loading a page either raises, or gives the text of the page's title
  element, if there is one, and the reference of its "next" control, if one is found (the
  search over the button labels and the anchors). The loop is
  \<^verbatim>\<open>
  for _ in range(max_steps):
      if not url or url in seen:
          break
      seen.add(url)
      ... load url, append the chapter, find next_url ...
      if not next_url or next_url == url:
          break
      url = next_url
      idx += 1
  return chapters
  \<close>
  in both scripts. \<open>seen\<close> is kept as the list of the references in the order they were added,
  which is the order of the page loads: a reference is added to \<open>seen\<close> exactly when the walk
  is about to load it. The model returns this list beside the result (the chapters, or the
  exception that ended the walk), so that the page loads of a walk can be counted whether it
  returns or raises.
\<close>

type_synonym page_view = "exn + (string option \<times> string option)"

fun walk_loop ::
  "(string list \<Rightarrow> page_view) \<Rightarrow> nat \<Rightarrow> Chapter list \<Rightarrow> string list \<Rightarrow> string \<Rightarrow> int
     \<Rightarrow> (exn + Chapter list) \<times> string list" where
  "walk_loop page 0 chapters seen u i = (Inr chapters, seen)"
| "walk_loop page (Suc n) chapters seen u i =
     (if u = [] \<or> u \<in> set seen then (Inr chapters, seen)
      else
        (let seen' = seen @ [u] in
         case page seen' of
           Inl e \<Rightarrow> (Inl e, seen')
         | Inr (soup_title, next_url) \<Rightarrow>
             (case chapter_title soup_title i of
                Inl e \<Rightarrow> (Inl e, seen')
              | Inr t \<Rightarrow>
                  (let chapters' = chapters @ [\<lparr>idx = i, title = t, url = u\<rparr>]
                   in case next_url of
                        None \<Rightarrow> (Inr chapters', seen')
                      | Some nu \<Rightarrow>
                          (if nu = [] \<or> nu = u then (Inr chapters', seen')
                           else walk_loop page n chapters' seen' nu (i + 1))))))"

definition walk_next_chapters ::
  "(string list \<Rightarrow> page_view) \<Rightarrow> string \<Rightarrow> int \<Rightarrow> (exn + Chapter list) \<times> string list" where
  "walk_next_chapters page start_url max_steps = walk_loop page (nat max_steps) [] [] start_url 1"

text \<open>
  The cap \<open>main\<close> passes in pia.py:
  \<^verbatim>\<open>lim = args.max_chapters if args.max_chapters and args.max_chapters > 0 else 300\<close>;
  novelpia_epub.py always passes 300, the default of the parameter.
\<close>

definition walk_steps_limit :: "int \<Rightarrow> int" where
  "walk_steps_limit max_chapters =
     (if max_chapters \<noteq> 0 \<and> max_chapters > 0 then max_chapters else 300)"

text \<open>A site of two pages whose "next" controls point at each other.\<close>

definition two_page_cycle :: "string list \<Rightarrow> page_view" where
  "two_page_cycle history =
     (if last history = ''/viewer/1'' then Inr (Some ''One'', Some ''/viewer/2'')
      else Inr (None, Some ''/viewer/1''))"

text \<open>A site whose second page fails to load.\<close>

definition broken_second_page :: "string list \<Rightarrow> page_view" where
  "broken_second_page history =
     (if last history = ''/viewer/1'' then Inr (Some ''One'', Some ''/viewer/2'')
      else Inl PlaywrightError)"

section \<open>api.py: extract_t_token\<close>

fun iter_strings :: "pyval \<Rightarrow> string list" where
  "iter_strings (PStr s) = [s]"
| "iter_strings (PDict d) = concat (map (\<lambda>kv. iter_strings (snd kv)) d)"
| "iter_strings (PList l) = concat (map iter_strings l)"
| "iter_strings v = []"

text \<open>
  \<open>urllib.parse.urlparse\<close> and \<open>parse_qs\<close> are parameters of the model: \<open>urlparse\<close> gives the
  parts of a URL that the function reads, \<open>parse_qs\<close> the lists of values by name; either may
  raise.
\<close>

record parsed_url =
  netloc :: string
  path :: string
  query :: string

text \<open>
  Each of the three searches either returns from the function (\<open>Found\<close>, with the token and
  the URL it came from, if any) or goes on with the fallback token it has reached.
\<close>

datatype scan = Found string "string option" | Fallback "string option"

text \<open>\<open>fallback_token or v\<close>\<close>

definition py_or :: "string option \<Rightarrow> string \<Rightarrow> string option" where
  "py_or fallback_token v =
     (case fallback_token of
        None \<Rightarrow> Some v
      | Some f \<Rightarrow> if f \<noteq> [] then Some f else Some v)"

definition token_keys :: "string list" where
  "token_keys = [''_t'', ''t'', ''token'']"

text \<open>
  \<^verbatim>\<open>
  for k in ("_t", "t", "token"):
      v = res.get(k)
      if isinstance(v, str) and v:
          if looks_like_jwt(v):
              return v, None
          fallback_token = fallback_token or v
  \<close>
\<close>

fun try_keys :: "(string \<times> pyval) list \<Rightarrow> string list \<Rightarrow> string option \<Rightarrow> scan" where
  "try_keys d [] fb = Fallback fb"
| "try_keys d (k # ks) fb =
     (case dict_get d k of
        PStr v \<Rightarrow>
          (if v \<noteq> [] then
             (if looks_like_jwt (PStr v) then Found v None
              else try_keys d ks (py_or fb v))
           else try_keys d ks fb)
      | _ \<Rightarrow> try_keys d ks fb)"

text \<open>The same keys in every dict that is a value of \<open>res\<close>, in the order of \<open>res.items()\<close>.\<close>

fun nested_keys :: "(string \<times> pyval) list \<Rightarrow> string option \<Rightarrow> scan" where
  "nested_keys [] fb = Fallback fb"
| "nested_keys ((k, v) # items) fb =
     (case v of
        PDict d \<Rightarrow>
          (case try_keys d token_keys fb of
             Found t u \<Rightarrow> Found t u
           | Fallback fb' \<Rightarrow> nested_keys items fb')
      | _ \<Rightarrow> nested_keys items fb)"

text \<open>\<open>(q.get("_t") or [None])[0]\<close>\<close>

definition first_t :: "(string \<times> string list) list \<Rightarrow> string option" where
  "first_t q =
     (case map_of q ''_t'' of
        None \<Rightarrow> None
      | Some [] \<Rightarrow> None
      | Some (x # xs) \<Rightarrow> Some x)"

text \<open>
  The loop over \<open>iter_strings(tdata)\<close>; an exception of \<open>urlparse\<close> or \<open>parse_qs\<close> is caught
  and the loop goes on with the next string.
\<close>

fun scan_urls ::
  "(string \<Rightarrow> exn + parsed_url) \<Rightarrow> (string \<Rightarrow> exn + (string \<times> string list) list)
     \<Rightarrow> string list \<Rightarrow> string option \<Rightarrow> scan" where
  "scan_urls urlparse parse_qs [] fb = Fallback fb"
| "scan_urls urlparse parse_qs (s # ss) fb =
     (if startswith s ''http://'' \<or> startswith s ''https://'' then
        (case urlparse s of
           Inl e \<Rightarrow> scan_urls urlparse parse_qs ss fb
         | Inr p \<Rightarrow>
             (if endswith (netloc p) ''api-global.novelpia.com''
                 \<and> endswith (path p) ''/v1/novel/episode/content'' then
                (case parse_qs (query p) of
                   Inl e \<Rightarrow> scan_urls urlparse parse_qs ss fb
                 | Inr q \<Rightarrow>
                     (case first_t q of
                        None \<Rightarrow> scan_urls urlparse parse_qs ss fb
                      | Some cand \<Rightarrow>
                          (if cand \<noteq> [] then
                             (if looks_like_jwt (PStr cand) then Found cand (Some s)
                              else scan_urls urlparse parse_qs ss (py_or fb cand))
                           else scan_urls urlparse parse_qs ss fb)))
              else scan_urls urlparse parse_qs ss fb))
      else scan_urls urlparse parse_qs ss fb)"

text \<open>\<open>res = tdata.get("result", {}) if isinstance(tdata, dict) else {}\<close>\<close>

definition result_of :: "pyval \<Rightarrow> pyval" where
  "result_of tdata =
     (case tdata of
        PDict d \<Rightarrow> (case map_of d ''result'' of None \<Rightarrow> PDict [] | Some r \<Rightarrow> r)
      | _ \<Rightarrow> PDict [])"

text \<open>
  The first loop calls \<open>res.get\<close> whatever \<open>res\<close> is: a \<open>result\<close> entry that is not a dict has
  no \<open>get\<close>, and the call raises \<open>AttributeError\<close>. (The second loop is guarded by
  \<open>isinstance(res, dict)\<close>.)
\<close>

definition extract_t_token ::
  "(string \<Rightarrow> exn + parsed_url) \<Rightarrow> (string \<Rightarrow> exn + (string \<times> string list) list)
     \<Rightarrow> pyval \<Rightarrow> exn + (string option \<times> string option)" where
  "extract_t_token urlparse parse_qs tdata =
     (case result_of tdata of
        PDict res \<Rightarrow>
          (case try_keys res token_keys None of
             Found t u \<Rightarrow> Inr (Some t, u)
           | Fallback fb1 \<Rightarrow>
               (case nested_keys res fb1 of
                  Found t u \<Rightarrow> Inr (Some t, u)
                | Fallback fb2 \<Rightarrow>
                    (case scan_urls urlparse parse_qs (iter_strings tdata) fb2 of
                       Found t u \<Rightarrow> Inr (Some t, u)
                     | Fallback fb3 \<Rightarrow>
                         (case fb3 of
                            None \<Rightarrow> Inr (None, None)
                          | Some f \<Rightarrow>
                              if f \<noteq> [] then Inr (Some f, None) else Inr (None, None)))))
      | _ \<Rightarrow> Inl AttributeError)"


subsection \<open>The candidates of extract_t_token, in the order of the search\<close>

text \<open>
  The non-empty strings the three searches look at, each with the URL it came from, if any:
  the values of the three keys in \<open>res\<close>, then those in the dicts that are values of \<open>res\<close>,
  then the \<open>_t\<close> parameters of the content-endpoint URLs among the strings of the payload.
  \<open>pick_token\<close> takes the first candidate that looks like a JWT, with its URL; if there is none,
  the first candidate, without a URL; if there is no candidate, \<open>(None, None)\<close>.
\<close>

fun key_cands :: "(string \<times> pyval) list \<Rightarrow> string list \<Rightarrow> (string \<times> string option) list" where
  "key_cands d [] = []"
| "key_cands d (k # ks) =
     (case dict_get d k of
        PStr v \<Rightarrow> if v \<noteq> [] then (v, None) # key_cands d ks else key_cands d ks
      | _ \<Rightarrow> key_cands d ks)"

fun nested_cands :: "(string \<times> pyval) list \<Rightarrow> (string \<times> string option) list" where
  "nested_cands [] = []"
| "nested_cands ((k, v) # items) =
     (case v of
        PDict d \<Rightarrow> key_cands d token_keys @ nested_cands items
      | _ \<Rightarrow> nested_cands items)"

fun url_cands ::
  "(string \<Rightarrow> exn + parsed_url) \<Rightarrow> (string \<Rightarrow> exn + (string \<times> string list) list)
     \<Rightarrow> string list \<Rightarrow> (string \<times> string option) list" where
  "url_cands urlparse parse_qs [] = []"
| "url_cands urlparse parse_qs (s # ss) =
     (if startswith s ''http://'' \<or> startswith s ''https://'' then
        (case urlparse s of
           Inl e \<Rightarrow> url_cands urlparse parse_qs ss
         | Inr p \<Rightarrow>
             (if endswith (netloc p) ''api-global.novelpia.com''
                 \<and> endswith (path p) ''/v1/novel/episode/content'' then
                (case parse_qs (query p) of
                   Inl e \<Rightarrow> url_cands urlparse parse_qs ss
                 | Inr q \<Rightarrow>
                     (case first_t q of
                        None \<Rightarrow> url_cands urlparse parse_qs ss
                      | Some cand \<Rightarrow>
                          (if cand \<noteq> [] then (cand, Some s) # url_cands urlparse parse_qs ss
                           else url_cands urlparse parse_qs ss)))
              else url_cands urlparse parse_qs ss))
      else url_cands urlparse parse_qs ss)"

definition candidates ::
  "(string \<Rightarrow> exn + parsed_url) \<Rightarrow> (string \<Rightarrow> exn + (string \<times> string list) list)
     \<Rightarrow> pyval \<Rightarrow> (string \<times> string option) list" where
  "candidates urlparse parse_qs tdata =
     (case result_of tdata of
        PDict res \<Rightarrow>
          key_cands res token_keys @ nested_cands res
            @ url_cands urlparse parse_qs (iter_strings tdata)
      | _ \<Rightarrow> [])"

definition pick_token :: "(string \<times> string option) list \<Rightarrow> string option \<times> string option" where
  "pick_token cs =
     (case find (\<lambda>c. looks_like_jwt (PStr (fst c))) cs of
        Some c \<Rightarrow> (Some (fst c), snd c)
      | None \<Rightarrow> (case cs of [] \<Rightarrow> (None, None) | c # cs' \<Rightarrow> (Some (fst c), None)))"

fun first_choice :: "(string \<times> string option) list \<Rightarrow> string option \<Rightarrow> scan" where
  "first_choice [] fb = Fallback fb"
| "first_choice (c # cs) fb =
     (if looks_like_jwt (PStr (fst c)) then Found (fst c) (snd c)
      else first_choice cs (py_or fb (fst c)))"

definition fb_ok :: "string option \<Rightarrow> bool" where
  "fb_ok fb = (case fb of None \<Rightarrow> True | Some f \<Rightarrow> f \<noteq> [])"


text \<open>A payload with a plain token at the top of \<open>result\<close> and a JWT-shaped one a level below.\<close>

definition nested_jwt_payload :: pyval where
  "nested_jwt_payload =
     PDict [(''result'', PDict [(''_t'', PStr ''plain''),
                                (''data'', PDict [(''token'', PStr ''abc.def.ghi'')])])]"

section \<open>api.py: the masking of logged values\<close>

text \<open>Truth value of a Python value, as \<open>if headers:\<close> tests it.\<close>

fun py_truthy :: "pyval \<Rightarrow> bool" where
  "py_truthy PNone = False"
| "py_truthy (PBool b) = b"
| "py_truthy (PInt i) = (i \<noteq> 0)"
| "py_truthy (PFloat x) = (x \<noteq> 0)"
| "py_truthy (PStr s) = (s \<noteq> [])"
| "py_truthy (PBytes s) = (s \<noteq> [])"
| "py_truthy (PList l) = (l \<noteq> [])"
| "py_truthy (PDict d) = (d \<noteq> [])"

text \<open>\<open>s.lower()\<close> on the characters of the model: the letters A to Z and the capital letters
  from 192 to 222 (215, the multiplication sign, apart) move up by 32.\<close>

definition py_lower_char :: "char \<Rightarrow> char" where
  "py_lower_char c =
     (let n = (of_char c :: nat)
      in if (65 \<le> n \<and> n \<le> 90) \<or> (192 \<le> n \<and> n \<le> 222 \<and> n \<noteq> 215)
         then char_of (n + 32) else c)"

definition py_lower :: "string \<Rightarrow> string" where
  "py_lower s = map py_lower_char s"

text \<open>
  The horizontal ellipsis (U+2026) of the two truncation marks lies outside the characters of
  the model; it is written as the three bytes of its UTF-8 encoding.
\<close>

definition ellipsis :: string where
  "ellipsis = [CHR 0xE2, CHR 0x80, CHR 0xA6]"

text \<open>
  \<^verbatim>\<open>
  def _mask_value(v):
      if isinstance(v, dict):
          return {k: _mask_value(v2) for k, v2 in v.items()}
      if isinstance(v, list):
          return [_mask_value(x) for x in v]
      if isinstance(v, str):
          low = v.lower()
          if low.count(".") == 2 and all(len(p) > 5 for p in v.split(".")):
              parts = v.split(".")
              return parts[0][:6] + "..." + parts[-1][-6:]
          if len(v) > 64:
              return v[:32] + "...(trunc)"      # with U+2026 for the three dots
          return v
      return v
  \<close>
  (the function's \<open>try\<close> has nothing to catch: no step of it raises).
\<close>

fun mask_value :: "pyval \<Rightarrow> pyval" where
  "mask_value (PDict d) = PDict (map (\<lambda>kv. (fst kv, mask_value (snd kv))) d)"
| "mask_value (PList l) = PList (map mask_value l)"
| "mask_value (PStr v) =
     (let low = py_lower v; parts = py_split (CHR ''.'') v
      in if length (filter (\<lambda>c. c = CHR ''.'') low) = 2 \<and> list_all (\<lambda>p. length p > 5) parts
         then PStr (take 6 (hd parts) @ ''...'' @ drop (length (last parts) - 6) (last parts))
         else if length v > 64 then PStr (take 32 v @ ellipsis @ ''(trunc)'')
         else PStr v)"
| "mask_value v = v"

definition credential_patterns :: "string list" where
  "credential_patterns =
     [''pass'', ''passwd'', ''password'', ''authorization'', ''token'', ''login-at'',
      ''login_at'', ''_t'']"

definition credential_key :: "string \<Rightarrow> bool" where
  "credential_key k = list_ex (\<lambda>x. py_in x (py_lower k)) credential_patterns"

text \<open>
  \<^verbatim>\<open>
  def _mask_kv(d):
      if not isinstance(d, dict):
          return d
      out = {}
      for k, v in d.items():
          kl = str(k).lower()
          if any(x in kl for x in ("pass", ..., "_t")):
              out[k] = "***"
          else:
              out[k] = _mask_value(v)
      return out
  \<close>
\<close>

fun mask_items :: "(string \<times> pyval) list \<Rightarrow> (string \<times> pyval) list \<Rightarrow> (string \<times> pyval) list" where
  "mask_items [] out = out"
| "mask_items ((k, v) # d) out =
     (if credential_key k then mask_items d (dict_set out k (PStr ''***''))
      else mask_items d (dict_set out k (mask_value v)))"

fun mask_kv :: "pyval \<Rightarrow> pyval" where
  "mask_kv (PDict d) = PDict (mask_items d [])"
| "mask_kv d = d"


section \<open>api.py: request_with_retries\<close>

record response =
  status_code :: int
  reason :: string
  resp_url :: string
  resp_text :: "string option"
  json_body :: "exn + pyval"

text \<open>
  \<open>resp_text\<close> is \<open>r.text\<close> (\<open>None\<close> when reading it raises), \<open>json_body\<close> is what \<open>r.json()\<close>
  returns or raises. A request is what \<open>session.request\<close> is called with.
\<close>

record request =
  req_method :: string
  req_url :: string
  req_headers :: pyval
  req_params :: pyval
  req_json :: pyval
  req_data :: pyval

datatype outcome = Resp response | Raises exn

text \<open>
  What a call changes: the requests handed to the session, in order; the exponents \<open>attempt\<close>
  of the sleeps of \<open>backoff ** attempt\<close> seconds; the lines printed; the client's
  \<open>tokens.login_at\<close>; and the number of calls of the refresh callback.
\<close>

record world =
  sent :: "request list"
  slept :: "int list"
  printed :: "string list"
  login_at :: pyval
  refreshes :: nat

text \<open>
  What a call reads: the remote side, which answers the history of the requests sent so far
  (the current one last) with a response or an exception; the global \<open>HTTP_LOG\<close>;
  \<open>json.dumps\<close> as \<open>_j\<close> uses it; and \<open>bytes.decode("utf-8", "ignore")\<close>.
\<close>

record env =
  server :: "request list \<Rightarrow> outcome"
  HTTP_LOG :: bool
  dumps :: "pyval \<Rightarrow> string"
  decode :: "string \<Rightarrow> string"

definition session_request :: "env \<Rightarrow> request \<Rightarrow> world \<Rightarrow> outcome \<times> world" where
  "session_request e req w = (server e (sent w @ [req]), w\<lparr>sent := sent w @ [req]\<rparr>)"

definition print_lines :: "string list \<Rightarrow> world \<Rightarrow> world" where
  "print_lines ls w = w\<lparr>printed := printed w @ ls\<rparr>"

definition log :: "env \<Rightarrow> string list \<Rightarrow> world \<Rightarrow> world" where
  "log e ls w = (if HTTP_LOG e then print_lines ls w else w)"

text \<open>
  The lines printed before the request is sent:
  \<^verbatim>\<open>
  print(f"[api] -> {method} {url} (attempt {attempt}/{max_retries})")
  if headers:
      print(f"[api]    headers: {_j(_mask_kv(headers))}")
  if params:
      print(f"[api]    params:  {_j(_mask_kv(params))}")
  if json is not None:
      print(f"[api]    json:    {_j(_mask_kv(json))}")
  if data is not None and not json:
      d = data if isinstance(data, (str, bytes)) else _j(_mask_kv(data))
      if isinstance(d, bytes):
          d = d[:128] + b"..." if len(d) > 128 else d
          d = d.decode("utf-8", "ignore")
      print(f"[api]    data:    {d if isinstance(d, str) else str(d)}")
  \<close>
\<close>

definition data_line :: "env \<Rightarrow> pyval \<Rightarrow> string" where
  "data_line e data =
     (let d = (case data of PStr s \<Rightarrow> PStr s | PBytes b \<Rightarrow> PBytes b
                 | _ \<Rightarrow> PStr (dumps e (mask_kv data)));
          d' = (case d of
                  PBytes b \<Rightarrow> decode e (if length b > 128 then take 128 b @ ''...'' else b)
                | PStr s \<Rightarrow> s
                | _ \<Rightarrow> [])
      in ''[api]    data:    '' @ d')"

definition request_lines :: "env \<Rightarrow> request \<Rightarrow> int \<Rightarrow> int \<Rightarrow> string list" where
  "request_lines e req attempt max_retries =
     [''[api] -> '' @ req_method req @ '' '' @ req_url req @ '' (attempt '' @ py_str_int attempt
        @ ''/'' @ py_str_int max_retries @ '')'']
     @ (if py_truthy (req_headers req)
        then [''[api]    headers: '' @ dumps e (mask_kv (req_headers req))] else [])
     @ (if py_truthy (req_params req)
        then [''[api]    params:  '' @ dumps e (mask_kv (req_params req))] else [])
     @ (if req_json req \<noteq> PNone
        then [''[api]    json:    '' @ dumps e (mask_kv (req_json req))] else [])
     @ (if req_data req \<noteq> PNone \<and> \<not> py_truthy (req_json req)
        then [data_line e (req_data req)] else [])"

text \<open>
  The lines printed for a response:
  \<^verbatim>\<open>
  try:
      t = r.text
      body_preview = (t[:500] + "...") if len(t) > 500 else t     # U+2026 for the dots
  except Exception:
      body_preview = "<non-text body>"
  print(f"[api] <- {r.status_code} {r.reason} from {r.url}")
  if body_preview is not None:
      print(f"[api]    body: {body_preview}")
  \<close>
\<close>

definition response_lines :: "response \<Rightarrow> string list" where
  "response_lines r =
     (let body_preview =
            (case resp_text r of
               None \<Rightarrow> ''<non-text body>''
             | Some t \<Rightarrow> if length t > 500 then take 500 t @ ellipsis else t)
      in [''[api] <- '' @ py_str_int (status_code r) @ '' '' @ reason r @ '' from '' @ resp_url r,
          ''[api]    body: '' @ body_preview])"

fun exn_str :: "exn \<Rightarrow> string" where
  "exn_str (RequestException m) = m"
| "exn_str (HTTPError m) = m"
| "exn_str e = []"

definition failure_lines :: "request \<Rightarrow> int \<Rightarrow> exn \<Rightarrow> string list" where
  "failure_lines req attempt ex =
     [''[api] !! '' @ req_method req @ '' '' @ req_url req @ '' failed on attempt ''
        @ py_str_int attempt @ '': '' @ exn_str ex]"

text \<open>\<open>body.get("errmsg") == "The token has expired."\<close>, for a body that is a dict.\<close>

definition token_expired :: "response \<Rightarrow> bool" where
  "token_expired r =
     (case json_body r of
        Inr (PDict body) \<Rightarrow> dict_get body ''errmsg'' = PStr ''The token has expired.''
      | _ \<Rightarrow> False)"

type_synonym refresh = "world \<Rightarrow> (exn + unit) \<times> world"

text \<open>
  \<^verbatim>\<open>
  try:
      body = r.json()
      if body.get("errmsg") == "The token has expired." and refresh_fn:
          refresh_fn()
          r = session.request(method, url, headers=headers, params=params, json=json,
                              data=data, timeout=timeout)
  except Exception:
      pass
  \<close>
  Whatever raises in the block (\<open>r.json()\<close>, \<open>body.get\<close> on a body that is no dict, the
  callback, the replayed request) leaves \<open>r\<close> as it was. The replay sends the \<open>headers\<close> the
  call was given.
\<close>

definition refresh_and_replay ::
  "env \<Rightarrow> request \<Rightarrow> refresh option \<Rightarrow> response \<Rightarrow> world \<Rightarrow> response \<times> world" where
  "refresh_and_replay e req refresh_fn r w =
     (if token_expired r then
        (case refresh_fn of
           None \<Rightarrow> (r, w)
         | Some f \<Rightarrow>
             (case f (w\<lparr>refreshes := refreshes w + 1\<rparr>) of
                (Inl ex, w1) \<Rightarrow> (r, w1)
              | (Inr u, w1) \<Rightarrow>
                  (case session_request e req w1 of
                     (Raises ex, w2) \<Rightarrow> (r, w2)
                   | (Resp r2, w2) \<Rightarrow> (r2, w2))))
      else (r, w))"

text \<open>
  One pass through the body of the \<open>while\<close> loop, \<open>attempt\<close> already incremented: it returns
  the response, raises, or goes round again (\<open>continue\<close>) with \<open>last_exc\<close> and \<open>r\<close>.
\<close>

datatype attempt_result =
    Return response world
  | Raise exn world
  | Continue "exn option" "response option" world

definition attempt_once ::
  "env \<Rightarrow> request \<Rightarrow> int \<Rightarrow> bool \<Rightarrow> refresh option \<Rightarrow> int \<Rightarrow> exn option \<Rightarrow> response option
     \<Rightarrow> world \<Rightarrow> attempt_result" where
  "attempt_once e req max_retries allow_refresh refresh_fn attempt last_exc r0 w =
     (let w1 = log e (request_lines e req attempt max_retries) w
      in case session_request e req w1 of
        (Raises ex, w2) \<Rightarrow>
          (if is_RequestException ex then
             (let w3 = log e (failure_lines req attempt ex) w2
              in if attempt < max_retries
                 then Continue (Some ex) r0 (w3\<lparr>slept := slept w3 @ [attempt]\<rparr>)
                 else Raise ex w3)
           else Raise ex w2)
      | (Resp r1, w2) \<Rightarrow>
          (let (r, w3) = (if allow_refresh then refresh_and_replay e req refresh_fn r1 w2
                          else (r1, w2));
               w4 = log e (response_lines r) w3
           in if status_code r \<ge> 500 \<and> attempt < max_retries
              then Continue last_exc (Some r) (w4\<lparr>slept := slept w4 @ [attempt]\<rparr>)
              else Return r w4))"

text \<open>
  \<^verbatim>\<open>
  attempt = 0
  last_exc = None
  while attempt < max_retries:
      attempt += 1
      ...
  if last_exc:
      raise last_exc
  return r
  \<close>
  After the loop \<open>r\<close> is unbound when no pass has assigned it.
\<close>

function request_loop ::
  "env \<Rightarrow> request \<Rightarrow> int \<Rightarrow> bool \<Rightarrow> refresh option \<Rightarrow> int \<Rightarrow> exn option \<Rightarrow> response option
     \<Rightarrow> world \<Rightarrow> (exn + response) \<times> world" where
  "request_loop e req max_retries allow_refresh refresh_fn attempt last_exc r0 w =
     (if attempt < max_retries then
        (case attempt_once e req max_retries allow_refresh refresh_fn (attempt + 1) last_exc r0 w of
           Return r w' \<Rightarrow> (Inr r, w')
         | Raise ex w' \<Rightarrow> (Inl ex, w')
         | Continue last_exc' r' w' \<Rightarrow>
             request_loop e req max_retries allow_refresh refresh_fn (attempt + 1) last_exc' r' w')
      else
        (case last_exc of
           Some ex \<Rightarrow> (Inl ex, w)
         | None \<Rightarrow> (case r0 of None \<Rightarrow> (Inl UnboundLocalError, w) | Some r \<Rightarrow> (Inr r, w))))"
  by pat_completeness auto
termination
  by (relation "measure (\<lambda>(e, req, max_retries, allow_refresh, refresh_fn, attempt, last_exc, r0, w).
        nat (max_retries - attempt))") auto

declare request_loop.simps [simp del]

definition request_with_retries ::
  "env \<Rightarrow> request \<Rightarrow> int \<Rightarrow> bool \<Rightarrow> refresh option \<Rightarrow> world \<Rightarrow> (exn + response) \<times> world" where
  "request_with_retries e req max_retries allow_refresh refresh_fn w =
     request_loop e req max_retries allow_refresh refresh_fn 0 None None w"

text \<open>The refresh is triggered: the three conditions of the inner block.\<close>

definition refresh_triggers :: "bool \<Rightarrow> refresh option \<Rightarrow> response \<Rightarrow> bool" where
  "refresh_triggers allow_refresh refresh_fn r =
     (allow_refresh \<and> refresh_fn \<noteq> None \<and> token_expired r)"

section \<open>api.py: NovelpiaClient\<close>

text \<open>
  \<^verbatim>\<open>
  def merge_login_at(headers, login_at):
      h = dict(headers or {})
      if login_at:
          h["login-at"] = login_at
      return h
  \<close>
\<close>

definition merge_login_at :: "(string \<times> pyval) list \<Rightarrow> pyval \<Rightarrow> pyval" where
  "merge_login_at headers la =
     (if py_truthy la then PDict (dict_set headers ''login-at'' la) else PDict headers)"

definition API_BASE :: string where
  "API_BASE = ''https://api-global.novelpia.com''"

text \<open>\<open>v[k]\<close> for a string \<open>k\<close>.\<close>

fun py_getitem :: "pyval \<Rightarrow> string \<Rightarrow> exn + pyval" where
  "py_getitem (PDict d) k = (case map_of d k of None \<Rightarrow> Inl KeyError | Some v \<Rightarrow> Inr v)"
| "py_getitem v k = Inl TypeError"

text \<open>
  \<open>Response.raise_for_status\<close> of requests:
  \<^verbatim>\<open>
  if 400 <= self.status_code < 500:
      http_error_msg = f"{self.status_code} Client Error: {reason} for url: {self.url}"
  elif 500 <= self.status_code < 600:
      http_error_msg = f"{self.status_code} Server Error: {reason} for url: {self.url}"
  if http_error_msg:
      raise HTTPError(http_error_msg, response=self)
  \<close>
\<close>

definition raise_for_status :: "response \<Rightarrow> exn + unit" where
  "raise_for_status r =
     (if 400 \<le> status_code r \<and> status_code r < 500
      then Inl (HTTPError (py_str_int (status_code r) @ '' Client Error: '' @ reason r
                  @ '' for url: '' @ resp_url r))
      else if 500 \<le> status_code r \<and> status_code r < 600
      then Inl (HTTPError (py_str_int (status_code r) @ '' Server Error: '' @ reason r
                  @ '' for url: '' @ resp_url r))
      else Inr ())"

text \<open>
  \<^verbatim>\<open>
  def refresh(self):
      url = f"{API_BASE}/v1/login/refresh"
      r = request_with_retries(self.s, "GET", url,
              headers=merge_login_at({}, self.tokens.login_at),
              timeout=self.timeout, max_retries=2)
      r.raise_for_status()
      self.tokens.login_at = r.json()["result"]["LOGINAT"]
  \<close>
\<close>

definition client_refresh :: "env \<Rightarrow> world \<Rightarrow> (exn + unit) \<times> world" where
  "client_refresh e w =
     (let req = \<lparr>req_method = ''GET'', req_url = API_BASE @ ''/v1/login/refresh'',
                 req_headers = merge_login_at [] (login_at w), req_params = PNone,
                 req_json = PNone, req_data = PNone\<rparr>
      in case request_with_retries e req 2 False None w of
           (Inl ex, w1) \<Rightarrow> (Inl ex, w1)
         | (Inr r, w1) \<Rightarrow>
             (case raise_for_status r of
                Inl ex \<Rightarrow> (Inl ex, w1)
              | Inr u \<Rightarrow>
                  (case json_body r of
                     Inl ex \<Rightarrow> (Inl ex, w1)
                   | Inr body \<Rightarrow>
                       (case py_getitem body ''result'' of
                          Inl ex \<Rightarrow> (Inl ex, w1)
                        | Inr res \<Rightarrow>
                            (case py_getitem res ''LOGINAT'' of
                               Inl ex \<Rightarrow> (Inl ex, w1)
                             | Inr v \<Rightarrow> (Inr (), w1\<lparr>login_at := v\<rparr>))))))"

text \<open>
  \<^verbatim>\<open>
  def me(self):
      url = f"{API_BASE}/v1/login/me"
      r = request_with_retries(self.s, "GET", url,
              headers=merge_login_at({}, self.tokens.login_at),
              timeout=self.timeout, allow_refresh=True, refresh_fn=self.refresh)
      r.raise_for_status()
      return r.json()
  \<close>
  with the default \<open>max_retries=3\<close>.
\<close>

definition client_me :: "env \<Rightarrow> world \<Rightarrow> (exn + pyval) \<times> world" where
  "client_me e w =
     (let req = \<lparr>req_method = ''GET'', req_url = API_BASE @ ''/v1/login/me'',
                 req_headers = merge_login_at [] (login_at w), req_params = PNone,
                 req_json = PNone, req_data = PNone\<rparr>
      in case request_with_retries e req 3 True (Some (client_refresh e)) w of
           (Inl ex, w1) \<Rightarrow> (Inl ex, w1)
         | (Inr r, w1) \<Rightarrow>
             (case raise_for_status r of
                Inl ex \<Rightarrow> (Inl ex, w1)
              | Inr u \<Rightarrow>
                  (case json_body r of Inl ex \<Rightarrow> (Inl ex, w1) | Inr body \<Rightarrow> (Inr body, w1))))"

subsection \<open>Canned remote sides\<close>

text \<open>
  A remote side that answers the \<open>n\<close>-th request with the \<open>n\<close>-th outcome of a list, and
  refuses the connection afterwards.
\<close>

definition canned :: "outcome list \<Rightarrow> request list \<Rightarrow> outcome" where
  "canned os h =
     (if 0 < length h \<and> length h \<le> length os then os ! (length h - 1)
      else Raises (RequestException ''connection refused''))"

definition quiet_env :: "(request list \<Rightarrow> outcome) \<Rightarrow> env" where
  "quiet_env srv = \<lparr>server = srv, HTTP_LOG = False, dumps = (\<lambda>v. []), decode = (\<lambda>b. b)\<rparr>"

definition json_response :: "int \<Rightarrow> pyval \<Rightarrow> response" where
  "json_response code body =
     \<lparr>status_code = code, reason = [], resp_url = [], resp_text = Some [], json_body = Inr body\<rparr>"

definition plain_response :: "int \<Rightarrow> response" where
  "plain_response code = json_response code (PDict [])"

definition expired_response :: response where
  "expired_response = json_response 200 (PDict [(''errmsg'', PStr ''The token has expired.'')])"

definition get_request :: request where
  "get_request = \<lparr>req_method = ''GET'', req_url = ''u'', req_headers = PNone, req_params = PNone,
                   req_json = PNone, req_data = PNone\<rparr>"

definition world0 :: world where
  "world0 = \<lparr>sent = [], slept = [], printed = [], login_at = PStr ''old'', refreshes = 0\<rparr>"

definition canned_500_500_200 :: env where
  "canned_500_500_200 =
     quiet_env (canned [Resp (plain_response 500), Resp (plain_response 500),
                        Resp (plain_response 200)])"

definition canned_500_500_500 :: env where
  "canned_500_500_500 =
     quiet_env (canned [Resp (plain_response 500), Resp (plain_response 500),
                        Resp (plain_response 500)])"

definition canned_failures :: env where
  "canned_failures =
     quiet_env (canned [Raises (RequestException ''timeout 1''),
                        Raises (RequestException ''timeout 2''),
                        Raises (RequestException ''timeout 3'')])"

text \<open>
  The answers to \<open>me\<close> when the token has expired and the replay after the refresh meets a
  server error: token expired; the refresh answered with a new token; 500 for the replay;
  then, on the second attempt, token expired again; a second refresh; 200 for its replay.
\<close>

definition expiring_server :: "request list \<Rightarrow> outcome" where
  "expiring_server =
     canned [Resp expired_response,
             Resp (json_response 200 (PDict [(''result'', PDict [(''LOGINAT'', PStr ''new1'')])])),
             Resp (plain_response 500),
             Resp expired_response,
             Resp (json_response 200 (PDict [(''result'', PDict [(''LOGINAT'', PStr ''new2'')])])),
             Resp (plain_response 200)]"




text \<open>
  The answers to \<open>me\<close> when the token has expired once: token expired; the refresh answered
  with a new token; 200 for the replay. \<open>me_request\<close> and \<open>refresh_request\<close> are the requests
  the client sends while its \<open>login_at\<close> is \<open>old\<close>.
\<close>

definition refreshing_server :: "request list \<Rightarrow> outcome" where
  "refreshing_server =
     canned [Resp expired_response,
             Resp (json_response 200 (PDict [(''result'', PDict [(''LOGINAT'', PStr ''new1'')])])),
             Resp (plain_response 200)]"

definition me_request :: request where
  "me_request = \<lparr>req_method = ''GET'', req_url = API_BASE @ ''/v1/login/me'',
                 req_headers = PDict [(''login-at'', PStr ''old'')], req_params = PNone,
                 req_json = PNone, req_data = PNone\<rparr>"

definition refresh_request :: request where
  "refresh_request = \<lparr>req_method = ''GET'', req_url = API_BASE @ ''/v1/login/refresh'',
                 req_headers = PDict [(''login-at'', PStr ''old'')], req_params = PNone,
                 req_json = PNone, req_data = PNone\<rparr>"









section \<open>pia.py, novelpia_epub.py: goto_page\<close>

text \<open>
  \<open>s.strip()\<close>, \<open>s.isdigit()\<close> and \<open>int(s)\<close> on the characters of the model: the white space
  characters, the decimal digits and the superscript digits (which \<open>isdigit\<close> accepts and
  \<open>int\<close> refuses), and the literals \<open>int\<close> reads: an optional sign, digits, single underscores
  between digits. \<open>int\<close> raises \<open>ValueError\<close> on a literal of more than 4300 digits (the
  underscores are not counted), as \<open>str\<close> does on an integer of that size.
\<close>

definition is_space :: "char \<Rightarrow> bool" where
  "is_space c =
     (c \<in> set [CHR 0x09, CHR 0x0A, CHR 0x0B, CHR 0x0C, CHR 0x0D, CHR 0x1C, CHR 0x1D, CHR 0x1E,
                CHR 0x1F, CHR 0x20, CHR 0x85, CHR 0xA0])"

definition py_strip :: "string \<Rightarrow> string" where
  "py_strip s = rev (dropWhile is_space (rev (dropWhile is_space s)))"

definition is_decimal :: "char \<Rightarrow> bool" where
  "is_decimal c = (c \<in> set ''0123456789'')"

definition py_isdigit :: "string \<Rightarrow> bool" where
  "py_isdigit s =
     (s \<noteq> [] \<and> list_all (\<lambda>c. is_decimal c \<or> c \<in> set [CHR 0xB2, CHR 0xB3, CHR 0xB9]) s)"

fun no_double_underscore :: "string \<Rightarrow> bool" where
  "no_double_underscore (a # b # cs) =
     (\<not> (a = CHR ''_'' \<and> b = CHR ''_'') \<and> no_double_underscore (b # cs))"
| "no_double_underscore cs = True"

definition int_literal :: "string \<Rightarrow> bool" where
  "int_literal s =
     (s \<noteq> [] \<and> is_decimal (hd s) \<and> is_decimal (last s)
      \<and> list_all (\<lambda>c. is_decimal c \<or> c = CHR ''_'') s \<and> no_double_underscore s)"

definition digit_value :: "char \<Rightarrow> nat" where
  "digit_value c = (case index_of c ''0123456789'' of None \<Rightarrow> 0 | Some d \<Rightarrow> d)"

definition digits_value :: "string \<Rightarrow> nat" where
  "digits_value s = foldl (\<lambda>a c. 10 * a + digit_value c) 0 s"

definition py_int :: "string \<Rightarrow> exn + int" where
  "py_int s =
     (let t = py_strip s;
          neg = (t \<noteq> [] \<and> hd t = CHR ''-'');
          body = (if t \<noteq> [] \<and> (hd t = CHR ''-'' \<or> hd t = CHR ''+'') then tl t else t);
          ds = filter (\<lambda>c. c \<noteq> CHR ''_'') body
      in if int_literal body \<and> length ds \<le> max_str_digits
         then Inr ((if neg then - 1 else 1) * int (digits_value ds))
         else Inl ValueError)"


text \<open>
  The pagination bar of the rendered page, as \<open>goto_page\<close> uses it. \<open>'p\<close> is the state of the
  page. Reading never changes the page; a click or a wait may, and each call may raise:
  \<^item> \<open>current_text\<close>: \<open>text_content()\<close> of the first \<open>.page-btn.current\<close>;
  \<^item> \<open>number_count\<close>, \<open>click_number\<close>: \<open>count()\<close> and \<open>click()\<close> of the first numeric button
    with the target's text;
  \<^item> \<open>wait_current\<close>: \<open>wait_for_function\<close> until the current button shows the target;
  \<^item> \<open>has_target\<close>: the script \<open>js_has_target\<close>;
  \<^item> \<open>arrow_count\<close>, \<open>click_arrow\<close>: the "next group" arrow; \<open>wait_timeout\<close> the pause after it.
  The clicks issued are collected in a list of actions.

  The selector of the numeric button and the script \<open>js_has_target\<close> are f-strings that hold
  \<open>{target}\<close>: building one raises \<open>ValueError\<close> when \<open>str(target)\<close> does, before the page is
  asked anything (\<open>number_count_of\<close>, \<open>has_target_of\<close>). Both are built inside a \<open>try\<close>.
\<close>

datatype action = ClickNumber int | ClickArrow

record 'p ui =
  current_text :: "'p \<Rightarrow> exn + string option"
  number_count :: "int \<Rightarrow> 'p \<Rightarrow> exn + nat"
  click_number :: "int \<Rightarrow> 'p \<Rightarrow> (exn + unit) \<times> 'p"
  wait_current :: "int \<Rightarrow> 'p \<Rightarrow> (exn + unit) \<times> 'p"
  has_target :: "int \<Rightarrow> 'p \<Rightarrow> exn + bool"
  arrow_count :: "'p \<Rightarrow> exn + nat"
  click_arrow :: "'p \<Rightarrow> (exn + unit) \<times> 'p"
  wait_timeout :: "'p \<Rightarrow> (exn + unit) \<times> 'p"

definition number_count_of :: "'p ui \<Rightarrow> int \<Rightarrow> 'p \<Rightarrow> exn + nat" where
  "number_count_of u target p =
     (case py_str target of Inl e \<Rightarrow> Inl e | Inr s \<Rightarrow> number_count u target p)"

definition has_target_of :: "'p ui \<Rightarrow> int \<Rightarrow> 'p \<Rightarrow> exn + bool" where
  "has_target_of u target p =
     (case py_str target of Inl e \<Rightarrow> Inl e | Inr s \<Rightarrow> has_target u target p)"

text \<open>
  pia.py: \<open>cur_txt and cur_txt.strip().isdigit() and int(cur_txt.strip()) == target\<close>
\<close>

definition shows_page :: "string option \<Rightarrow> int \<Rightarrow> bool" where
  "shows_page cur_txt target =
     (case cur_txt of
        None \<Rightarrow> False
      | Some t \<Rightarrow> t \<noteq> [] \<and> py_isdigit (py_strip t) \<and> py_int (py_strip t) = Inr target)"

text \<open>
  \<open>await btn.click(...); await page.wait_for_function(...); return True\<close>: \<open>True\<close> when both
  calls return, \<open>False\<close> when one raises (the enclosing \<open>except Exception: pass\<close>).
\<close>

definition click_and_wait ::
  "'p ui \<Rightarrow> int \<Rightarrow> 'p \<Rightarrow> action list \<Rightarrow> bool \<times> 'p \<times> action list" where
  "click_and_wait u target p acts =
     (case click_number u target p of
        (Inl e, p1) \<Rightarrow> (False, p1, acts @ [ClickNumber target])
      | (Inr x, p1) \<Rightarrow>
          (case wait_current u target p1 of
             (Inl e, p2) \<Rightarrow> (False, p2, acts @ [ClickNumber target])
           | (Inr y, p2) \<Rightarrow> (True, p2, acts @ [ClickNumber target])))"

text \<open>
  pia.py, the loop \<open>for _ in range(40)\<close>: click the target when the script finds it, else
  click the arrow, if there is one (\<open>break\<close> if not), and pause.
\<close>

fun step_groups :: "'p ui \<Rightarrow> int \<Rightarrow> nat \<Rightarrow> 'p \<Rightarrow> action list \<Rightarrow> bool \<times> 'p \<times> action list" where
  "step_groups u target 0 p acts = (False, p, acts)"
| "step_groups u target (Suc n) p acts =
     (case has_target_of u target p of
        Inl e \<Rightarrow> step_groups u target n p acts
      | Inr True \<Rightarrow>
          (case click_and_wait u target p acts of
             (True, p', acts') \<Rightarrow> (True, p', acts')
           | (False, p', acts') \<Rightarrow> step_groups u target n p' acts')
      | Inr False \<Rightarrow>
          (case arrow_count u p of
             Inl e \<Rightarrow> step_groups u target n p acts
           | Inr c \<Rightarrow>
               (if c = 0 then (False, p, acts)
                else (case click_arrow u p of
                        (Inl e, p1) \<Rightarrow> step_groups u target n p1 (acts @ [ClickArrow])
                      | (Inr x, p1) \<Rightarrow>
                          step_groups u target n (snd (wait_timeout u p1)) (acts @ [ClickArrow])))))"

definition goto_page :: "'p ui \<Rightarrow> int \<Rightarrow> 'p \<Rightarrow> bool \<times> 'p \<times> action list" where
  "goto_page u target p =
     (if (case current_text u p of Inl e \<Rightarrow> False | Inr cur_txt \<Rightarrow> shows_page cur_txt target)
      then (True, p, [])
      else
        (case (case number_count_of u target p of
                 Inl e \<Rightarrow> (False, p, [])
               | Inr c \<Rightarrow> if c \<noteq> 0 then click_and_wait u target p [] else (False, p, [])) of
           (True, p', acts) \<Rightarrow> (True, p', acts)
         | (False, p', acts) \<Rightarrow> step_groups u target 40 p' acts))"

text \<open>
  novelpia_epub.py: \<open>get_current_page_num\<close> returns \<open>int((txt or '').strip())\<close>, or \<open>None\<close> when
  anything raises; the loop \<open>for _ in range(60)\<close> clicks the arrow first and then looks for the
  numeric button.
\<close>

definition get_current_page_num :: "'p ui \<Rightarrow> 'p \<Rightarrow> int option" where
  "get_current_page_num u p =
     (case current_text u p of
        Inl e \<Rightarrow> None
      | Inr txt \<Rightarrow>
          (case py_int (py_strip (case txt of None \<Rightarrow> [] | Some t \<Rightarrow> t)) of
             Inl e \<Rightarrow> None
           | Inr n \<Rightarrow> Some n))"

fun step_groups_epub ::
  "'p ui \<Rightarrow> int \<Rightarrow> nat \<Rightarrow> 'p \<Rightarrow> action list \<Rightarrow> bool \<times> 'p \<times> action list" where
  "step_groups_epub u target 0 p acts = (False, p, acts)"
| "step_groups_epub u target (Suc n) p acts =
     (case arrow_count u p of
        Inl e \<Rightarrow> step_groups_epub u target n p acts
      | Inr c \<Rightarrow>
          (if c = 0 then (False, p, acts)
           else (case click_arrow u p of
                   (Inl e, p1) \<Rightarrow> step_groups_epub u target n p1 (acts @ [ClickArrow])
                 | (Inr x, p1) \<Rightarrow>
                     (case wait_timeout u p1 of
                        (Inl e, p2) \<Rightarrow> step_groups_epub u target n p2 (acts @ [ClickArrow])
                      | (Inr y, p2) \<Rightarrow>
                          (case number_count_of u target p2 of
                             Inl e \<Rightarrow> step_groups_epub u target n p2 (acts @ [ClickArrow])
                           | Inr k \<Rightarrow>
                               (if k \<noteq> 0 then
                                  (case click_and_wait u target p2 (acts @ [ClickArrow]) of
                                     (True, p', acts') \<Rightarrow> (True, p', acts')
                                   | (False, p', acts') \<Rightarrow> step_groups_epub u target n p' acts')
                                else step_groups_epub u target n p2 (acts @ [ClickArrow])))))))"

definition goto_page_epub :: "'p ui \<Rightarrow> int \<Rightarrow> 'p \<Rightarrow> bool \<times> 'p \<times> action list" where
  "goto_page_epub u target p =
     (if get_current_page_num u p = Some target then (True, p, [])
      else
        (case (case number_count_of u target p of
                 Inl e \<Rightarrow> (False, p, [])
               | Inr c \<Rightarrow> if c \<noteq> 0 then click_and_wait u target p [] else (False, p, [])) of
           (True, p', acts) \<Rightarrow> (True, p', acts)
         | (False, p', acts) \<Rightarrow> step_groups_epub u target 60 p' acts))"

text \<open>
  The indicator shows page \<open>target\<close>: the text of the current button is the decimal numeral of
  \<open>target\<close>, white space around it apart. \<open>wait_sound\<close> says what a successful
  \<open>wait_for_function\<close> has waited for.
\<close>

definition indicator_shows :: "'p ui \<Rightarrow> 'p \<Rightarrow> int \<Rightarrow> bool" where
  "indicator_shows u p target =
     (case current_text u p of
        Inr (Some t) \<Rightarrow> py_strip t = py_str_int target
      | _ \<Rightarrow> False)"

definition wait_sound :: "'p ui \<Rightarrow> int \<Rightarrow> bool" where
  "wait_sound u target =
     (\<forall>p p'. wait_current u target p = (Inr (), p') \<longrightarrow> indicator_shows u p' target)"


text \<open>A bar with the buttons 1 to 5, all visible, and no arrow; the state is the current page.\<close>

definition five_pages :: "int ui" where
  "five_pages =
     \<lparr>current_text = (\<lambda>p. Inr (Some ('' '' @ py_str_int p @ '' ''))),
      number_count = (\<lambda>t p. Inr (if 1 \<le> t \<and> t \<le> 5 then 1 else 0)),
      click_number = (\<lambda>t p. (Inr (), t)),
      wait_current = (\<lambda>t p. if p = t then (Inr (), p) else (Inl PlaywrightError, p)),
      has_target = (\<lambda>t p. Inr (1 \<le> t \<and> t \<le> 5)),
      arrow_count = (\<lambda>p. Inr 0),
      click_arrow = (\<lambda>p. (Inr (), p)),
      wait_timeout = (\<lambda>p. (Inr (), p))\<rparr>"



text \<open>
  A bar that is stuck on page 1: the indicator shows 1, the only numeric button is 1, and the
  arrow is there but leads nowhere. The state counts the clicks on the arrow.
\<close>

definition stuck_bar :: "nat ui" where
  "stuck_bar =
     \<lparr>current_text = (\<lambda>p. Inr (Some ''1'')),
      number_count = (\<lambda>t p. Inr (if t = 1 then 1 else 0)),
      click_number = (\<lambda>t p. (Inr (), p)),
      wait_current = (\<lambda>t p. if t = 1 then (Inr (), p) else (Inl PlaywrightError, p)),
      has_target = (\<lambda>t p. Inr (t = 1)),
      arrow_count = (\<lambda>p. Inr 1),
      click_arrow = (\<lambda>p. (Inr (), Suc p)),
      wait_timeout = (\<lambda>p. (Inr (), p))\<rparr>"

section \<open>Properties of the decoder and of looks_like_jwt\<close>
lemma index_of_None: "index_of x ys = None \<longleftrightarrow> x \<notin> set ys"
  by (induction ys) auto

lemma table_data: "table_a2b_base64 (urlsafe_decode_translation c) \<noteq> None \<longleftrightarrow> is_b64_data c"
  by (auto simp: table_a2b_base64_def index_of_None is_b64_data_def urlsafe_decode_translation_def b64_alphabet_def)

lemma translation_pad: "urlsafe_decode_translation c = CHR ''='' \<longleftrightarrow> c = CHR ''=''"
  by (simp add: urlsafe_decode_translation_def)

lemma b64url_char_data: "b64url_char c \<Longrightarrow> is_b64_data c \<and> c \<noteq> CHR ''='' \<and> is_ascii c"
  unfolding b64url_char_def is_b64_data_def b64_alphabet_def is_ascii_def
  by (elim disjE | simp)+

lemma pads_low: "q < 2 \<Longrightarrow> a2b_loop q l pads out (replicate n (CHR ''='')) = (if q \<noteq> 0 then Inl BinasciiError else Inr out)"
  by (induction n arbitrary: pads) auto

lemma pads_end: "q < 4 \<Longrightarrow> 3 \<le> n \<Longrightarrow> isl (a2b_loop q l pads out (replicate n (CHR ''=''))) \<longleftrightarrow> q = 1"
proof -
  assume q: "q < 4" and n: "3 \<le> n"
  then obtain m where m: "n = Suc (Suc (Suc m))"
    by (metis Suc_le_D Suc_le_mono numeral_3_eq_3)
  consider "q = 0" | "q = 1" | "q = 2" | "q = 3" using q by linarith
  then show ?thesis
  proof cases
    case 1 then show ?thesis using pads_low[of q l pads out n] by simp
  next
    case 2 then show ?thesis using pads_low[of q l pads out n] by simp
  next
    case 3 then show ?thesis by (simp add: m)
  next
    case 4 then show ?thesis by (simp add: m)
  qed
qed

lemma a2b_loop_count:
  "q < 4 \<Longrightarrow> CHR ''='' \<notin> set cs \<Longrightarrow> 3 \<le> n \<Longrightarrow>
   isl (a2b_loop q l pads out (map urlsafe_decode_translation cs @ replicate n (CHR ''=''))) \<longleftrightarrow>
     (q + length (filter is_b64_data cs)) mod 4 = 1"
proof (induction cs arbitrary: q l pads out)
  case Nil
  then show ?case using pads_end[of q n l pads out] by simp
next
  case (Cons c cs)
  have ne: "c \<noteq> CHR ''=''" and ne': "CHR ''='' \<notin> set cs" using Cons.prems by auto
  show ?case
  proof (cases "table_a2b_base64 (urlsafe_decode_translation c)")
    case None
    then have "\<not> is_b64_data c" using table_data[of c] by simp
    then show ?thesis using Cons.IH[of q] Cons.prems(1,3) ne ne' None by (simp add: translation_pad)
  next
    case (Some v)
    then have d: "is_b64_data c" using table_data[of c] by simp
    consider "q = 0" | "q = 1" | "q = 2" | "q = 3" using Cons.prems by linarith
    then show ?thesis
    proof cases
      case 1 then show ?thesis using Cons.IH[of 1] Cons.prems(3) ne ne' Some d by (simp add: translation_pad)
    next
      case 2 then show ?thesis using Cons.IH[of 2] Cons.prems(3) ne ne' Some d by (simp add: translation_pad)
    next
      case 3 then show ?thesis using Cons.IH[of 3] Cons.prems(3) ne ne' Some d by (simp add: translation_pad)
    next
      case 4 then show ?thesis using Cons.IH[of 0] Cons.prems(3) ne ne' Some d by (simp add: translation_pad)
    qed
  qed
qed

lemma py_split_ne: "py_split d s \<noteq> []"
  by (induction s) (auto split: list.splits)

lemma py_split_sub: "\<forall>p \<in> set (py_split d s). set p \<subseteq> set s"
proof (induction s)
  case Nil then show ?case by simp
next
  case (Cons c cs)
  then show ?case
    by (cases "py_split d cs") (auto split: if_splits simp: py_split_ne)
qed

lemma py_split_cover: "set s \<subseteq> insert d (\<Union>p \<in> set (py_split d s). set p)"
proof (induction s)
  case Nil then show ?case by simp
next
  case (Cons c cs)
  then show ?case
    by (cases "py_split d cs") (auto split: if_splits simp: py_split_ne)
qed

lemma segment_decode_nopad:
  assumes "CHR ''='' \<notin> set p"
  shows "isl (urlsafe_b64decode (p @ ''==='')) \<longleftrightarrow>
           (\<not> list_all is_ascii p \<or> length (filter is_b64_data p) mod 4 = 1)"
proof -
  have pad: "''==='' = replicate 3 (CHR ''='')" by (simp add: numeral_3_eq_3)
  have asc: "list_all is_ascii (p @ ''==='') = list_all is_ascii p"
    by (simp add: is_ascii_def)
  have tr: "map urlsafe_decode_translation (p @ ''==='') =
              map urlsafe_decode_translation p @ replicate 3 (CHR ''='')"
    by (simp add: urlsafe_decode_translation_def numeral_3_eq_3)
  show ?thesis
    unfolding urlsafe_b64decode_def asc a2b_base64_def tr
    using a2b_loop_count[of 0 p 3 0 0 "[]"] assms by simp
qed

lemma segment_decode_valid:
  assumes "valid_base64url p"
  shows "\<not> isl (urlsafe_b64decode (p @ ''===''))"
proof -
  define body where "body = takeWhile (\<lambda>c. c \<noteq> CHR ''='') p"
  define pad where "pad = dropWhile (\<lambda>c. c \<noteq> CHR ''='') p"
  have p: "p = body @ pad" by (simp add: body_def pad_def)
  from assms have b: "list_all b64url_char body" and pd: "list_all (\<lambda>c. c = CHR ''='') pad"
    and len: "length body mod 4 \<noteq> 1"
    by (simp_all add: valid_base64url_def body_def pad_def Let_def)
  have padrep: "pad = replicate (length pad) (CHR ''='')"
    using pd by (induction pad) auto
  have bd: "\<forall>c \<in> set body. is_b64_data c \<and> c \<noteq> CHR ''='' \<and> is_ascii c"
    using b b64url_char_data by (auto simp: list_all_iff)
  have eqa: "is_ascii (CHR ''='')" by (simp add: is_ascii_def)
  have "list_all is_ascii body" using bd by (simp add: list_all_iff)
  moreover have "list_all is_ascii pad" using pd eqa by (induction pad) auto
  ultimately have asc: "list_all is_ascii (p @ ''==='')"
    using eqa by (simp add: p)
  have filt: "filter is_b64_data body = body" using bd by (simp add: filter_id_conv)
  have tr: "map urlsafe_decode_translation (p @ ''==='') =
              map urlsafe_decode_translation body @ replicate (length pad + 3) (CHR ''='')"
  proof -
    have "map urlsafe_decode_translation pad = pad"
      using pd by (induction pad) (auto simp: urlsafe_decode_translation_def)
    moreover have "pad @ ''==='' = replicate (length pad + 3) (CHR ''='')"
    proof -
      have "''==='' = replicate 3 (CHR ''='')" by (simp add: numeral_3_eq_3)
      then have "pad @ ''==='' = replicate (length pad) (CHR ''='') @ replicate 3 (CHR ''='')"
        using padrep by simp
      then show ?thesis by (simp only: replicate_add)
    qed
    ultimately show ?thesis by (simp add: p urlsafe_decode_translation_def)
  qed
  have ne: "CHR ''='' \<notin> set body" using bd by auto
  show ?thesis
    unfolding urlsafe_b64decode_def a2b_base64_def tr
    using asc a2b_loop_count[of 0 body "length pad + 3" 0 0 "[]"] ne len filt by simp
qed

lemma parts_decode_all:
  "parts_decode ps \<longleftrightarrow> list_all (\<lambda>p. \<not> isl (urlsafe_b64decode (p @ ''===''))) ps"
  by (induction ps) (auto split: sum.splits)


text \<open>
  Claim C1, as amended. \<open>looks_like_jwt\<close> accepts a string only if it has exactly three
  dot-separated segments and is all ASCII; it accepts every string of three segments that are
  valid base64url data (padding optional); and, for a string without \<open>=\<close>, it accepts exactly
  when there are three segments, each all ASCII with a number of alphabet characters
  (\<open>A-Z a-z 0-9 + / - _\<close>; every other character is skipped) that is not 1 modulo 4.
\<close>

theorem looks_like_jwt_characterisation:
  "(looks_like_jwt (PStr s) \<longrightarrow>
      length (py_split (CHR ''.'') s) = 3 \<and> list_all is_ascii s)
   \<and> (length (py_split (CHR ''.'') s) = 3 \<and> list_all valid_base64url (py_split (CHR ''.'') s)
        \<longrightarrow> looks_like_jwt (PStr s))
   \<and> (CHR ''='' \<notin> set s \<longrightarrow>
        looks_like_jwt (PStr s) =
          (length (py_split (CHR ''.'') s) = 3 \<and>
           list_all (\<lambda>p. list_all is_ascii p \<and> length (filter is_b64_data p) mod 4 \<noteq> 1)
             (py_split (CHR ''.'') s)))"
proof -
  let ?ps = "py_split (CHR ''.'') s"
  have jwt: "looks_like_jwt (PStr s) \<longleftrightarrow>
      length ?ps = 3 \<and> list_all (\<lambda>p. \<not> isl (urlsafe_b64decode (p @ ''===''))) ?ps"
    by (auto simp: Let_def parts_decode_all)
  have a: "looks_like_jwt (PStr s) \<longrightarrow> length ?ps = 3 \<and> list_all is_ascii s"
  proof
    assume j: "looks_like_jwt (PStr s)"
    then have ok: "\<forall>p \<in> set ?ps. \<not> isl (urlsafe_b64decode (p @ ''===''))"
      using jwt by (simp add: list_all_iff)
    have "\<forall>p \<in> set ?ps. list_all is_ascii p"
    proof
      fix p assume "p \<in> set ?ps"
      then have "\<not> isl (urlsafe_b64decode (p @ ''===''))" using ok by simp
      then have "list_all is_ascii (p @ ''==='')"
        by (auto simp: urlsafe_b64decode_def split: if_splits)
      then show "list_all is_ascii p" by simp
    qed
    moreover have "is_ascii (CHR ''.'')" by (simp add: is_ascii_def)
    ultimately have "\<forall>c \<in> set s. is_ascii c"
      using py_split_cover[of s "CHR ''.''"] by (auto simp: list_all_iff)
    then show "length ?ps = 3 \<and> list_all is_ascii s" using j jwt by (simp add: list_all_iff)
  qed
  have b: "length ?ps = 3 \<and> list_all valid_base64url ?ps \<longrightarrow> looks_like_jwt (PStr s)"
    using segment_decode_valid jwt by (auto simp: list_all_iff)
  have c: "CHR ''='' \<notin> set s \<longrightarrow> looks_like_jwt (PStr s) =
          (length ?ps = 3 \<and>
           list_all (\<lambda>p. list_all is_ascii p \<and> length (filter is_b64_data p) mod 4 \<noteq> 1) ?ps)"
  proof
    assume ne: "CHR ''='' \<notin> set s"
    have "\<forall>p \<in> set ?ps. CHR ''='' \<notin> set p" using py_split_sub[of "CHR ''.''" s] ne by auto
    then have "\<forall>p \<in> set ?ps. (\<not> isl (urlsafe_b64decode (p @ ''===''))) =
        (list_all is_ascii p \<and> length (filter is_b64_data p) mod 4 \<noteq> 1)"
      using segment_decode_nopad by simp
    then have "list_all (\<lambda>p. \<not> isl (urlsafe_b64decode (p @ ''===''))) ?ps =
        list_all (\<lambda>p. list_all is_ascii p \<and> length (filter is_b64_data p) mod 4 \<noteq> 1) ?ps"
      by (simp add: list_all_iff)
    then show "looks_like_jwt (PStr s) =
          (length ?ps = 3 \<and>
           list_all (\<lambda>p. list_all is_ascii p \<and> length (filter is_b64_data p) mod 4 \<noteq> 1) ?ps)"
      using jwt by simp
  qed
  show ?thesis using a b c by blast
qed

text \<open>
  The theorem at \<open>abc.def.ghi\<close>: three valid segments without \<open>=\<close>, so all three parts apply,
  and the string is accepted.
\<close>

theorem looks_like_jwt_characterisation_witness:
  "length (py_split (CHR ''.'') ''abc.def.ghi'') = 3
   \<and> list_all valid_base64url (py_split (CHR ''.'') ''abc.def.ghi'')
   \<and> CHR ''='' \<notin> set ''abc.def.ghi''
   \<and> looks_like_jwt (PStr ''abc.def.ghi'')
   \<and> list_all is_ascii ''abc.def.ghi''
   \<and> list_all (\<lambda>p. list_all is_ascii p \<and> length (filter is_b64_data p) mod 4 \<noteq> 1)
        (py_split (CHR ''.'') ''abc.def.ghi'')"
proof -
  have h1: "length (py_split (CHR ''.'') ''abc.def.ghi'') = 3" by simp
  have h2: "list_all valid_base64url (py_split (CHR ''.'') ''abc.def.ghi'')"
    by (simp add: valid_base64url_def b64url_char_def)
  have h3: "CHR ''='' \<notin> set ''abc.def.ghi''" by simp
  show ?thesis
    using looks_like_jwt_characterisation[of "''abc.def.ghi''"] h1 h2 h3 by blast
qed

text \<open>
  Claim C1 as stated fails: \<open>abc.def.ghi\<close> is accepted, since each of \<open>abc===\<close>, \<open>def===\<close> and
  \<open>ghi===\<close> decodes; and a string whose segments hold no base64url character at all is accepted
  too, since the decoder skips what is not in its alphabet. A segment of one alphabet character
  is refused.
\<close>

theorem looks_like_jwt_counterexample:
  "looks_like_jwt (PStr ''abc.def.ghi'')
   \<and> looks_like_jwt (PStr ''!!.??.##'') \<and> \<not> valid_base64url ''!!''
   \<and> \<not> looks_like_jwt (PStr ''a.b.c'')"
  by (simp add: urlsafe_b64decode_def is_ascii_def a2b_base64_def table_a2b_base64_def
      b64_alphabet_def urlsafe_decode_translation_def valid_base64url_def b64url_char_def)

section \<open>Properties of the final de-duplication\<close>
lemma dict_set_absent: "map_of d k = None \<Longrightarrow> dict_set d k v = d @ [(k, v)]"
  by (induction d) (auto split: if_splits)

lemma dedup_loop_keep_first:
  "dedup_loop d cs = d @ map (\<lambda>c. (url c, c)) (keep_first (map fst d) cs)"
proof (induction cs arbitrary: d)
  case Nil then show ?case by simp
next
  case (Cons c cs)
  have k: "map_of d (url c) = None \<longleftrightarrow> url c \<notin> set (map fst d)"
    by (simp add: map_of_eq_None_iff)
  show ?case
  proof (cases "map_of d (url c) = None \<and> py_in ''/viewer/'' (url c)")
    case True
    then show ?thesis using Cons[of "d @ [(url c, c)]"] k by (simp add: dict_set_absent)
  next
    case False
    then show ?thesis using Cons[of d] k by auto
  qed
qed

lemma dedup_values: "map snd (dedup_loop [] cs) = keep_first [] cs"
  by (simp add: dedup_loop_keep_first comp_def)

lemma keep_first_sub:
  "set (keep_first seen cs) \<subseteq> {c \<in> set cs. url c \<notin> set seen \<and> py_in ''/viewer/'' (url c)}"
proof (induction cs arbitrary: seen)
  case Nil then show ?case by simp
next
  case (Cons a cs)
  show ?case using Cons[of seen] Cons[of "seen @ [url a]"] by auto
qed

lemma keep_first_set:
  "c \<in> set (keep_first seen cs) \<Longrightarrow> c \<in> set cs \<and> url c \<notin> set seen \<and> py_in ''/viewer/'' (url c)"
  using keep_first_sub[of seen cs] by auto

lemma keep_first_sorted: "sorted (map idx cs) \<Longrightarrow> sorted (map idx (keep_first seen cs))"
proof (induction cs arbitrary: seen)
  case Nil then show ?case by simp
next
  case (Cons a cs)
  then have "sorted (map idx cs)" and le: "\<forall>c \<in> set cs. idx a \<le> idx c" by auto
  then show ?case using Cons.IH keep_first_sub[of "seen @ [url a]" cs] by auto
qed

lemma keep_first_distinct: "distinct (map url (keep_first seen cs))"
proof (induction cs arbitrary: seen)
  case Nil then show ?case by simp
next
  case (Cons c cs)
  show ?case using Cons[of seen] Cons[of "seen @ [url c]"] keep_first_sub[of "seen @ [url c]" cs]
    by auto
qed

lemma keep_first_find:
  "c \<in> set (keep_first seen cs) \<Longrightarrow> find (\<lambda>x. url x = url c) cs = Some c"
proof (induction cs arbitrary: seen)
  case Nil then show ?case by simp
next
  case (Cons a cs)
  show ?case
  proof (cases "url a \<notin> set seen \<and> py_in ''/viewer/'' (url a)")
    case True
    then have "c = a \<or> c \<in> set (keep_first (seen @ [url a]) cs)" using Cons.prems by auto
    then show ?thesis
    proof
      assume "c = a" then show ?thesis by simp
    next
      assume m: "c \<in> set (keep_first (seen @ [url a]) cs)"
      then have "url c \<noteq> url a" using keep_first_set[OF m] by auto
      then show ?thesis using Cons.IH[OF m] by auto
    qed
  next
    case False
    then have m: "c \<in> set (keep_first seen cs)" using Cons.prems by auto
    have "url c \<noteq> url a"
    proof
      assume e: "url c = url a"
      have "url c \<notin> set seen \<and> py_in ''/viewer/'' (url c)" using keep_first_set[OF m] by simp
      then show False using False e by simp
    qed
    then show ?thesis using Cons.IH[OF m] by auto
  qed
qed

lemma keep_first_subseq: "subseq (keep_first seen cs) cs"
  by (induction cs arbitrary: seen) auto

lemma keep_first_complete:
  "url ` set (keep_first seen cs) = {u \<in> url ` set cs. u \<notin> set seen \<and> py_in ''/viewer/'' u}"
proof (induction cs arbitrary: seen)
  case Nil then show ?case by simp
next
  case (Cons c cs)
  show ?case using Cons[of seen] Cons[of "seen @ [url c]"] by auto
qed

lemma keep_first_none: "\<forall>c \<in> set cs. \<not> py_in ''/viewer/'' (url c) \<Longrightarrow> keep_first seen cs = []"
  by (induction cs arbitrary: seen) auto


lemma remdups_snoc: "remdups (xs @ [x]) = remdups (filter (\<lambda>y. y \<noteq> x) xs) @ [x]"
  by (induction xs) auto

lemma first_occurrence_Cons:
  "rev (remdups (rev (x # L))) = x # rev (remdups (rev (filter (\<lambda>y. y \<noteq> x) L)))"
  by (simp add: remdups_snoc rev_filter)

lemma keep_first_urls:
  "map url (keep_first seen cs) =
     rev (remdups (rev (filter (\<lambda>u. u \<notin> set seen \<and> py_in ''/viewer/'' u) (map url cs))))"
proof (induction cs arbitrary: seen)
  case Nil then show ?case by simp
next
  case (Cons c cs)
  show ?case
  proof (cases "url c \<notin> set seen \<and> py_in ''/viewer/'' (url c)")
    case True
    have f: "filter (\<lambda>y. y \<noteq> url c) (filter (\<lambda>u. u \<notin> set seen \<and> py_in ''/viewer/'' u) (map url cs))
        = filter (\<lambda>u. u \<notin> set (seen @ [url c]) \<and> py_in ''/viewer/'' u) (map url cs)"
      by (auto intro: filter_cong)
    have "map url (keep_first seen (c # cs)) = url c # map url (keep_first (seen @ [url c]) cs)"
      using True by simp
    moreover have "filter (\<lambda>u. u \<notin> set seen \<and> py_in ''/viewer/'' u) (map url (c # cs))
        = url c # filter (\<lambda>u. u \<notin> set seen \<and> py_in ''/viewer/'' u) (map url cs)"
      using True by simp
    ultimately show ?thesis using Cons[of "seen @ [url c]"]
      by (simp only: first_occurrence_Cons f)
  next
    case False
    then show ?thesis using Cons[of seen] by auto
  qed
qed

lemma finalize_uncapped: "finalize_chapters 0 cs = sort_key idx (keep_first [] cs)"
  by (simp add: finalize_chapters_def dedup_values)

lemma finalize_capped:
  "finalize_chapters m cs = (if 0 < m then take (nat m) (finalize_chapters 0 cs) else finalize_chapters 0 cs)"
  by (auto simp: finalize_chapters_def dedup_values Let_def)


text \<open>
  Claim C5, as amended. The finalizer first keeps, of each reference that contains
  \<open>/viewer/\<close>, the first chapter that carries it, with the \<open>idx\<close> it was discovered with
  (nothing is renumbered), in discovery order (\<open>keep_first\<close>: its references are the input's
  references with \<open>/viewer/\<close>, each at its first occurrence); it then sorts these chapters by
  \<open>idx\<close> with a stable sort, so that chapters with the same \<open>idx\<close> stay in discovery order and
  an input whose \<open>idx\<close> values do not decrease is left in discovery order; and a positive cap
  \<open>m\<close> keeps the first \<open>m\<close> chapters of the sorted list, any other cap keeps them all. Hence
  the kept references are pairwise distinct, the list is ordered by \<open>idx\<close>, a positive cap
  bounds its length, and without a cap every reference with \<open>/viewer/\<close> is kept.
\<close>

theorem finalize_chapters_dedup:
  "distinct (map url (finalize_chapters m cs))
   \<and> (\<forall>c \<in> set (finalize_chapters m cs).
        find (\<lambda>x. url x = url c) cs = Some c \<and> py_in ''/viewer/'' (url c))
   \<and> sorted (map idx (finalize_chapters m cs))
   \<and> (0 < m \<longrightarrow> length (finalize_chapters m cs) \<le> nat m)
   \<and> (m \<le> 0 \<longrightarrow>
        url ` set (finalize_chapters m cs) = {u \<in> url ` set cs. py_in ''/viewer/'' u})
   \<and> (sorted (map idx cs) \<longrightarrow> subseq (finalize_chapters m cs) cs)
   \<and> (0 < m \<longrightarrow> finalize_chapters m cs = take (nat m) (finalize_chapters 0 cs))
   \<and> (m \<le> 0 \<longrightarrow> finalize_chapters m cs = finalize_chapters 0 cs)
   \<and> finalize_chapters 0 cs = sort_key idx (keep_first [] cs)
   \<and> map url (keep_first [] cs)
       = rev (remdups (rev (filter (py_in ''/viewer/'') (map url cs))))
   \<and> (\<forall>c \<in> set (keep_first [] cs). find (\<lambda>x. url x = url c) cs = Some c)
   \<and> filter (\<lambda>c. idx c = k) (finalize_chapters 0 cs) = filter (\<lambda>c. idx c = k) (keep_first [] cs)
   \<and> (sorted (map idx cs) \<longrightarrow> finalize_chapters 0 cs = keep_first [] cs)"
proof -
  define ks where "ks = sort_key idx (keep_first [] cs)"
  have fin: "finalize_chapters m cs = (if 0 < m then take (nat m) ks else ks)"
    by (auto simp: finalize_chapters_def dedup_values ks_def Let_def)
  have set_ks: "set ks = set (keep_first [] cs)" by (simp add: ks_def)
  have sub: "set (finalize_chapters m cs) \<subseteq> set (keep_first [] cs)"
    using set_ks fin by (auto dest: in_set_takeD)
  have dks: "distinct (map url ks)"
    unfolding ks_def using keep_first_distinct[of "[]" cs]
    by (metis distinct_map distinct_sort set_sort)
  have 1: "distinct (map url (finalize_chapters m cs))"
    using dks by (simp add: fin take_map[symmetric] distinct_take)
  have 2: "\<forall>c \<in> set (finalize_chapters m cs).
        find (\<lambda>x. url x = url c) cs = Some c \<and> py_in ''/viewer/'' (url c)"
    using sub keep_first_find keep_first_set by blast
  have sks: "sorted (map idx ks)" by (simp add: ks_def)
  have 3: "sorted (map idx (finalize_chapters m cs))"
    using sks by (simp add: fin take_map[symmetric] sorted_wrt_take)
  have 4: "0 < m \<longrightarrow> length (finalize_chapters m cs) \<le> nat m" by (simp add: fin)
  have 5: "m \<le> 0 \<longrightarrow> url ` set (finalize_chapters m cs) = {u \<in> url ` set cs. py_in ''/viewer/'' u}"
    using keep_first_complete[of "[]" cs] set_ks by (auto simp: fin)
  have id_sorted: "sorted (map idx cs) \<Longrightarrow> ks = keep_first [] cs"
  proof -
    assume s: "sorted (map idx cs)"
    have "sorted (map idx (keep_first [] cs))"
      using s by (rule keep_first_sorted)
    then show "ks = keep_first [] cs" by (simp add: ks_def sort_key_id_if_sorted)
  qed
  have 6: "sorted (map idx cs) \<longrightarrow> subseq (finalize_chapters m cs) cs"
  proof
    assume s: "sorted (map idx cs)"
    have "subseq ks cs" using keep_first_subseq id_sorted[OF s] by simp
    moreover have "subseq (take (nat m) ks) ks"
      by (metis append_take_drop_id prefix_def prefix_imp_subseq)
    ultimately show "subseq (finalize_chapters m cs) cs"
      by (auto simp: fin intro: subseq_order.order_trans)
  qed
  have 9: "finalize_chapters 0 cs = ks" by (simp add: finalize_uncapped ks_def)
  have 7: "0 < m \<longrightarrow> finalize_chapters m cs = take (nat m) (finalize_chapters 0 cs)"
    by (simp add: fin 9)
  have 8: "m \<le> 0 \<longrightarrow> finalize_chapters m cs = finalize_chapters 0 cs"
    by (simp add: fin 9)
  have 10: "map url (keep_first [] cs)
       = rev (remdups (rev (filter (py_in ''/viewer/'') (map url cs))))"
    using keep_first_urls[of "[]" cs] by simp
  have 11: "\<forall>c \<in> set (keep_first [] cs). find (\<lambda>x. url x = url c) cs = Some c"
    using keep_first_find by blast
  have 12: "filter (\<lambda>c. idx c = k) (finalize_chapters 0 cs)
      = filter (\<lambda>c. idx c = k) (keep_first [] cs)"
    by (simp only: 9 ks_def sort_key_stable)
  have 13: "sorted (map idx cs) \<longrightarrow> finalize_chapters 0 cs = keep_first [] cs"
    using id_sorted 9 by simp
  show ?thesis
    apply (intro conjI)
    using 1 apply blast
    using 2 apply blast
    using 3 apply blast
    using 4 apply blast
    using 5 apply blast
    using 6 apply blast
    using 7 apply blast
    using 8 apply blast
    using 9 ks_def apply blast
    using 10 apply blast
    using 11 apply blast
    using 12 apply blast
    using 13 apply blast
    done
qed

text \<open>
  The theorem at the references \<open>[A, B, A, C, B]\<close> with cap 2 and without a cap, and at an
  input that is not ordered by \<open>idx\<close>: under the cap the output is \<open>[A, B]\<close>, the first two
  of \<open>[A, B, C]\<close>; the chapters \<open>A\<close> (2), \<open>B\<close> (1), \<open>C\<close> (1), \<open>B\<close> (2) come out as
  \<open>B\<close>, \<open>C\<close>, \<open>A\<close>.
\<close>

theorem finalize_chapters_dedup_witness:
  "sorted (map idx chapters_ABACB)
   \<and> (0::int) < 2
   \<and> map url (finalize_chapters 2 chapters_ABACB) = [''/viewer/A'', ''/viewer/B'']
   \<and> subseq (finalize_chapters 2 chapters_ABACB) chapters_ABACB
   \<and> length (finalize_chapters 2 chapters_ABACB) \<le> nat 2
   \<and> url ` set (finalize_chapters 0 chapters_ABACB) =
        {u \<in> url ` set chapters_ABACB. py_in ''/viewer/'' u}
   \<and> list_all (\<lambda>c. find (\<lambda>x. url x = url c) chapters_ABACB = Some c \<and> py_in ''/viewer/'' (url c))
        (finalize_chapters 2 chapters_ABACB)
   \<and> finalize_chapters 2 chapters_ABACB = take (nat 2) (finalize_chapters 0 chapters_ABACB)
   \<and> finalize_chapters 0 chapters_ABACB = keep_first [] chapters_ABACB
   \<and> map url (keep_first [] chapters_ABACB) = [''/viewer/A'', ''/viewer/B'', ''/viewer/C'']
   \<and> map url (keep_first [] chapters_unsorted) = [''/viewer/A'', ''/viewer/B'', ''/viewer/C'']
   \<and> finalize_chapters 0 chapters_unsorted = sort_key idx (keep_first [] chapters_unsorted)
   \<and> map url (finalize_chapters 0 chapters_unsorted) = [''/viewer/B'', ''/viewer/C'', ''/viewer/A'']
   \<and> filter (\<lambda>c. idx c = 1) (finalize_chapters 0 chapters_unsorted)
       = filter (\<lambda>c. idx c = 1) (keep_first [] chapters_unsorted)"
proof -
  have h1: "sorted (map idx chapters_ABACB)" by (simp add: chapters_ABACB_def)
  have h2: "map url (finalize_chapters 2 chapters_ABACB) = [''/viewer/A'', ''/viewer/B'']"
    by (simp add: finalize_chapters_def chapters_ABACB_def prefix_def)
  have h3: "(0::int) \<le> 0" "(0::int) < 2" by simp_all
  have h4: "map url (keep_first [] chapters_ABACB) = [''/viewer/A'', ''/viewer/B'', ''/viewer/C'']"
    by (simp add: chapters_ABACB_def prefix_def)
  have h5: "map url (keep_first [] chapters_unsorted) = [''/viewer/A'', ''/viewer/B'', ''/viewer/C'']"
    by (simp add: chapters_unsorted_def prefix_def)
  have h6: "map url (finalize_chapters 0 chapters_unsorted)
      = [''/viewer/B'', ''/viewer/C'', ''/viewer/A'']"
    by (simp add: finalize_chapters_def chapters_unsorted_def prefix_def)
  note a = finalize_chapters_dedup[of 2 chapters_ABACB 1]
  note b = finalize_chapters_dedup[of 0 chapters_ABACB 1]
  note c = finalize_chapters_dedup[of 0 chapters_unsorted 1]
  show ?thesis
    apply (intro conjI)
    using h1 apply blast
    using h3 apply blast
    using h2 apply blast
    using a h1 apply blast
    using a h3 apply blast
    using b h3 apply blast
    using a apply (simp add: list_all_iff)
    using a h3 apply blast
    using b h1 apply blast
    using h4 apply blast
    using h5 apply blast
    using c apply blast
    using h6 apply blast
    using c apply blast
    done
qed

text \<open>
  Claim C5 as stated fails: for the references \<open>[A, B, A, C, B]\<close>, discovered with the numbers
  1 to 5, the output is \<open>[A, B, C]\<close> with the numbers 1, 2, 4 and not 1, 2, 3; and a reference
  without \<open>/viewer/\<close> is dropped, not kept.
\<close>

theorem finalize_chapters_counterexample:
  "map url (finalize_chapters 0 chapters_ABACB) = [''/viewer/A'', ''/viewer/B'', ''/viewer/C'']
   \<and> map idx (finalize_chapters 0 chapters_ABACB) = [1, 2, 4]
   \<and> finalize_chapters 0 [\<lparr>idx = 1, title = ''a'', url = ''/novel/1''\<rparr>] = []"
  by (simp add: finalize_chapters_def chapters_ABACB_def prefix_def)

text \<open>
  Claim C10. Every chapter of the finalized list has a reference that contains \<open>/viewer/\<close>,
  and a discovered list with no such reference ends as the empty list.
\<close>

theorem finalize_chapters_viewer_only:
  "(\<forall>c \<in> set (finalize_chapters m cs). py_in ''/viewer/'' (url c))
   \<and> ((\<forall>c \<in> set cs. \<not> py_in ''/viewer/'' (url c)) \<longrightarrow> finalize_chapters m cs = [])"
proof -
  have fin: "finalize_chapters m cs =
      (if 0 < m then take (nat m) (sort_key idx (keep_first [] cs))
       else sort_key idx (keep_first [] cs))"
    by (auto simp: finalize_chapters_def dedup_values Let_def)
  have "set (finalize_chapters m cs) \<subseteq> set (keep_first [] cs)"
    by (auto simp: fin dest: in_set_takeD)
  then have 1: "\<forall>c \<in> set (finalize_chapters m cs). py_in ''/viewer/'' (url c)"
    using keep_first_set by blast
  have 2: "(\<forall>c \<in> set cs. \<not> py_in ''/viewer/'' (url c)) \<longrightarrow> finalize_chapters m cs = []"
    by (simp add: fin keep_first_none)
  show ?thesis using 1 2 by blast
qed

text \<open>
  The theorem at a list with one viewer reference and one other, and at a list with none.
\<close>

theorem finalize_chapters_viewer_only_witness:
  "list_all (\<lambda>c. py_in ''/viewer/'' (url c))
     (finalize_chapters 0 [\<lparr>idx = 1, title = ''a'', url = ''/novel/1''\<rparr>,
                           \<lparr>idx = 2, title = ''b'', url = ''/viewer/7''\<rparr>])
   \<and> finalize_chapters 0 [\<lparr>idx = 1, title = ''a'', url = ''/novel/1''\<rparr>,
                           \<lparr>idx = 2, title = ''b'', url = ''/viewer/7''\<rparr>]
       = [\<lparr>idx = 2, title = ''b'', url = ''/viewer/7''\<rparr>]
   \<and> list_all (\<lambda>c. \<not> py_in ''/viewer/'' (url c)) [\<lparr>idx = 1, title = ''a'', url = ''/novel/1''\<rparr>]
   \<and> finalize_chapters 0 [\<lparr>idx = 1, title = ''a'', url = ''/novel/1''\<rparr>] = []"
proof -
  have h: "\<forall>c \<in> set [\<lparr>idx = 1, title = ''a'', url = ''/novel/1''\<rparr>]. \<not> py_in ''/viewer/'' (url c)"
    by (simp add: prefix_def)
  have e: "finalize_chapters 0 [\<lparr>idx = 1, title = ''a'', url = ''/novel/1''\<rparr>,
                           \<lparr>idx = 2, title = ''b'', url = ''/viewer/7''\<rparr>]
       = [\<lparr>idx = 2, title = ''b'', url = ''/viewer/7''\<rparr>]"
    by (simp add: finalize_chapters_def prefix_def)
  show ?thesis
    using finalize_chapters_viewer_only[of 0 "[\<lparr>idx = 1, title = ''a'', url = ''/novel/1''\<rparr>,
                           \<lparr>idx = 2, title = ''b'', url = ''/viewer/7''\<rparr>]"]
      finalize_chapters_viewer_only[of 0 "[\<lparr>idx = 1, title = ''a'', url = ''/novel/1''\<rparr>]"] h e
    by (simp add: list_all_iff)
qed


section \<open>Properties of walk_next_chapters\<close>

lemma walk_loop_inv:
  assumes "walk_loop page n chapters seen u i = (res, loads)" and "distinct seen"
  shows "distinct loads \<and> length loads \<le> length seen + n \<and> prefix seen loads
         \<and> (\<forall>chs. res = Inr chs \<longrightarrow> map url chapters = seen \<longrightarrow>
               map url chs = loads \<and> prefix chapters chs)"
  using assms
proof (induction n arbitrary: chapters seen u i)
  case 0 then show ?case by auto
next
  case (Suc n)
  show ?case
  proof (cases "u = [] \<or> u \<in> set seen")
    case True
    then show ?thesis using Suc.prems by auto
  next
    case False
    then have d: "distinct (seen @ [u])" using Suc.prems(2) by simp
    show ?thesis
    proof (cases "page (seen @ [u])")
      case (Inl e)
      then have "res = Inl e" "loads = seen @ [u]" using Suc.prems(1) False by auto
      then show ?thesis using d by simp
    next
      case (Inr v)
      obtain st nx where v: "v = (st, nx)" by (cases v)
      show ?thesis
      proof (cases "chapter_title st i")
        case (Inl e)
        then have "res = Inl e" "loads = seen @ [u]" using Suc.prems(1) False Inr v by auto
        then show ?thesis using d by simp
      next
        case t: (Inr t)
        define c where "c = \<lparr>idx = i, title = t, url = u\<rparr>"
        show ?thesis
        proof (cases "nx = None \<or> nx = Some [] \<or> nx = Some u")
          case True
          then have "res = Inr (chapters @ [c])" "loads = seen @ [u]"
            using Suc.prems(1) False Inr v t by (auto simp: Let_def c_def split: option.splits)
          then show ?thesis using d by (simp add: c_def)
        next
          case F2: False
          then obtain nu where nu: "nx = Some nu" "nu \<noteq> []" "nu \<noteq> u" by (cases nx) auto
          have w: "walk_loop page n (chapters @ [c]) (seen @ [u]) nu (i + 1) = (res, loads)"
            using Suc.prems(1) False Inr v t nu by (simp add: Let_def c_def)
          have ih: "distinct loads \<and> length loads \<le> length (seen @ [u]) + n
              \<and> prefix (seen @ [u]) loads
              \<and> (\<forall>chs. res = Inr chs \<longrightarrow> map url (chapters @ [c]) = seen @ [u] \<longrightarrow>
                    map url chs = loads \<and> prefix (chapters @ [c]) chs)"
            using Suc.IH[OF w d] .
          have u: "url c = u" by (simp add: c_def)
          show ?thesis using ih u by (auto dest: append_prefixD)
        qed
      qed
    qed
  qed
qed

lemma walk_loop_seen:
  "u \<in> set seen \<Longrightarrow> walk_loop page n chapters seen u i = (Inr chapters, seen)"
  by (cases n) auto

text \<open>
  Claim C7. A walk performs at most \<open>max_steps\<close> steps (passes of its loop that go to a
  page), whether it returns or is ended by an exception (with the cap \<open>main\<close> passes: at most
  the chapter cap when it is positive, and 300 otherwise), and never goes to a reference
  twice; when it returns, the chapters are those of the pages it went to, one each and in
  that order, so there are at most \<open>max_steps\<close> of them and their references are pairwise
  distinct; and a pass of the loop that meets a reference already seen returns at once, with
  the chapters collected so far and no further step. The walk is a total function: it always
  ends.
\<close>

theorem walk_next_chapters_bounded:
  "length (snd (walk_next_chapters page start_url max_steps)) \<le> nat max_steps
   \<and> distinct (snd (walk_next_chapters page start_url max_steps))
   \<and> (fst (walk_next_chapters page start_url max_steps) = Inr chs \<longrightarrow>
        map url chs = snd (walk_next_chapters page start_url max_steps)
        \<and> length chs \<le> nat max_steps \<and> distinct (map url chs))
   \<and> length (snd (walk_next_chapters page start_url (walk_steps_limit max_chapters)))
        \<le> (if 0 < max_chapters then nat max_chapters else 300)
   \<and> (u \<in> set seen \<longrightarrow> walk_loop page n chapters seen u i = (Inr chapters, seen))"
proof -
  have a: "distinct (snd (walk_next_chapters page start_url m))
      \<and> length (snd (walk_next_chapters page start_url m)) \<le> nat m
      \<and> (\<forall>cs. fst (walk_next_chapters page start_url m) = Inr cs \<longrightarrow>
            map url cs = snd (walk_next_chapters page start_url m))" for m
    using walk_loop_inv[of page "nat m" "[]" "[]" start_url 1
        "fst (walk_next_chapters page start_url m)" "snd (walk_next_chapters page start_url m)"]
    by (simp add: walk_next_chapters_def)
  have b: "length (snd (walk_next_chapters page start_url (walk_steps_limit max_chapters)))
        \<le> (if 0 < max_chapters then nat max_chapters else 300)"
    using a[of "walk_steps_limit max_chapters"] by (auto simp: walk_steps_limit_def)
  have c: "fst (walk_next_chapters page start_url max_steps) = Inr chs \<longrightarrow>
        map url chs = snd (walk_next_chapters page start_url max_steps)
        \<and> length chs \<le> nat max_steps \<and> distinct (map url chs)"
  proof
    assume r: "fst (walk_next_chapters page start_url max_steps) = Inr chs"
    then have e: "map url chs = snd (walk_next_chapters page start_url max_steps)"
      using a[of max_steps] by blast
    have "length chs = length (snd (walk_next_chapters page start_url max_steps))"
      using e by (metis length_map)
    then have l: "length chs \<le> nat max_steps" using a[of max_steps] by simp
    have "distinct (map url chs)" using a[of max_steps] by (simp only: e)
    then show "map url chs = snd (walk_next_chapters page start_url max_steps)
        \<and> length chs \<le> nat max_steps \<and> distinct (map url chs)"
      using e l by simp
  qed
  show ?thesis using a[of max_steps] b c walk_loop_seen[of u seen page n chapters i] by blast
qed

text \<open>
  The theorem at two pages whose "next" controls point at each other, walked with the default
  of 300 steps: the walk goes to both pages, returns both chapters and stops at the reference
  it has seen. On a site whose second page fails to load, the walk is ended by the exception
  after two steps.
\<close>

lemma two_page_walk:
  "walk_next_chapters two_page_cycle ''/viewer/1'' 300 =
     (Inr [\<lparr>idx = 1, title = ''One'', url = ''/viewer/1''\<rparr>,
           \<lparr>idx = 2, title = ''Chapter 2'', url = ''/viewer/2''\<rparr>],
      [''/viewer/1'', ''/viewer/2''])"
proof -
  have s: "py_str 2 = Inr ''2''"
    by (simp add: py_str_def str_digits_ok_def max_str_digits_def py_str_int_def digits_of.simps)
  have g: "walk_loop two_page_cycle (Suc (Suc (Suc k))) [] [] ''/viewer/1'' 1 =
     (Inr [\<lparr>idx = 1, title = ''One'', url = ''/viewer/1''\<rparr>,
           \<lparr>idx = 2, title = ''Chapter 2'', url = ''/viewer/2''\<rparr>],
      [''/viewer/1'', ''/viewer/2''])" for k
    by (simp add: two_page_cycle_def chapter_title_def s)
  have n: "nat 300 = Suc (Suc (Suc 297))" by simp
  show ?thesis
    unfolding walk_next_chapters_def by (simp only: n g)
qed

theorem walk_next_chapters_bounded_witness:
  "walk_next_chapters two_page_cycle ''/viewer/1'' 300 =
     (Inr [\<lparr>idx = 1, title = ''One'', url = ''/viewer/1''\<rparr>,
           \<lparr>idx = 2, title = ''Chapter 2'', url = ''/viewer/2''\<rparr>],
      [''/viewer/1'', ''/viewer/2''])
   \<and> walk_steps_limit 0 = 300
   \<and> length [''/viewer/1'', ''/viewer/2''] \<le> nat 300
   \<and> distinct [''/viewer/1'', ''/viewer/2'']
   \<and> map url [\<lparr>idx = 1, title = ''One'', url = ''/viewer/1''\<rparr>,
          \<lparr>idx = 2, title = ''Chapter 2'', url = ''/viewer/2''\<rparr>]
       = snd (walk_next_chapters two_page_cycle ''/viewer/1'' 300)
   \<and> ''/viewer/1'' \<in> set [''/viewer/1'', ''/viewer/2'']
   \<and> walk_loop two_page_cycle 298 [] [''/viewer/1'', ''/viewer/2''] ''/viewer/1'' 3
       = (Inr [], [''/viewer/1'', ''/viewer/2''])
   \<and> walk_next_chapters broken_second_page ''/viewer/1'' 300
       = (Inl PlaywrightError, [''/viewer/1'', ''/viewer/2''])"
proof -
  have l: "walk_steps_limit 0 = 300" by (simp add: walk_steps_limit_def)
  have g: "walk_loop broken_second_page (Suc (Suc (Suc k))) [] [] ''/viewer/1'' 1 =
     (Inl PlaywrightError, [''/viewer/1'', ''/viewer/2''])" for k
    by (simp add: broken_second_page_def chapter_title_def)
  have n: "nat 300 = Suc (Suc (Suc 297))" by simp
  have br: "walk_next_chapters broken_second_page ''/viewer/1'' 300
       = (Inl PlaywrightError, [''/viewer/1'', ''/viewer/2''])"
    unfolding walk_next_chapters_def by (simp only: n g)
  have m: "''/viewer/1'' \<in> set [''/viewer/1'', ''/viewer/2'']" by simp
  show ?thesis
    using walk_next_chapters_bounded[of two_page_cycle "''/viewer/1''" 300
        "[\<lparr>idx = 1, title = ''One'', url = ''/viewer/1''\<rparr>,
          \<lparr>idx = 2, title = ''Chapter 2'', url = ''/viewer/2''\<rparr>]" 0
        "''/viewer/1''" "[''/viewer/1'', ''/viewer/2'']" 298 "[]" 3]
      two_page_walk l m br
    by simp
qed

section \<open>Properties of extract_t_token\<close>

text \<open>
  Claim C3 fails on the code at a payload whose \<open>result\<close> entry is \<open>null\<close>: there is no
  candidate at any tier, and the call raises \<open>AttributeError\<close> from \<open>res.get\<close> instead of
  returning \<open>(None, None)\<close>, whatever \<open>urlparse\<close> and \<open>parse_qs\<close> do.
\<close>

theorem extract_t_token_null_result:
  "extract_t_token urlparse parse_qs (PDict [(''result'', PNone)]) = Inl AttributeError"
  by (simp add: extract_t_token_def result_of_def)

text \<open>
  Claim C9 fails on the code: the function raises on a payload of dicts, lists and strings
  whose \<open>result\<close> entry is a list (or a string), even when a JWT-shaped token is in it.
\<close>

theorem extract_t_token_raises:
  "extract_t_token urlparse parse_qs
     (PDict [(''result'', PList [PDict [(''_t'', PStr ''abc.def.ghi'')]])]) = Inl AttributeError
   \<and> extract_t_token urlparse parse_qs (PDict [(''result'', PStr ''abc.def.ghi'')])
       = Inl AttributeError"
  by (simp add: extract_t_token_def result_of_def)

lemma first_choice_append:
  "first_choice (a @ b) fb =
     (case first_choice a fb of Found t u \<Rightarrow> Found t u | Fallback fb' \<Rightarrow> first_choice b fb')"
  by (induction a arbitrary: fb) auto

lemma try_keys_choice: "try_keys d ks fb = first_choice (key_cands d ks) fb"
  by (induction ks arbitrary: fb) (auto split: pyval.splits)

lemma nested_keys_choice: "nested_keys items fb = first_choice (nested_cands items) fb"
proof (induction items arbitrary: fb)
  case Nil then show ?case by simp
next
  case (Cons a items)
  obtain k v where a: "a = (k, v)" by (cases a)
  show ?case using Cons
    by (cases v) (auto simp: a first_choice_append try_keys_choice split: scan.splits)
qed

lemma scan_urls_choice:
  "scan_urls urlparse parse_qs ss fb = first_choice (url_cands urlparse parse_qs ss) fb"
  by (induction ss arbitrary: fb) (auto split: sum.splits option.splits)

lemma first_choice_choose:
  "list_all (\<lambda>c. fst c \<noteq> []) cs \<Longrightarrow> fb_ok fb \<Longrightarrow>
   first_choice cs fb =
     (case find (\<lambda>c. looks_like_jwt (PStr (fst c))) cs of
        Some c \<Rightarrow> Found (fst c) (snd c)
      | None \<Rightarrow> Fallback (case fb of Some f \<Rightarrow> Some f
                  | None \<Rightarrow> (case cs of [] \<Rightarrow> None | c # cs' \<Rightarrow> Some (fst c))))"
proof (induction cs arbitrary: fb)
  case Nil then show ?case by (simp split: option.splits)
next
  case (Cons c cs)
  have ok: "fb_ok (py_or fb (fst c))" using Cons.prems by (auto simp: fb_ok_def py_or_def split: option.splits)
  show ?case
  proof (cases "looks_like_jwt (PStr (fst c))")
    case True then show ?thesis by simp
  next
    case False
    have "list_all (\<lambda>c. fst c \<noteq> []) cs" using Cons.prems by simp
    from Cons.IH[OF this ok] show ?thesis using False Cons.prems(2)
      by (auto simp: py_or_def fb_ok_def split: option.splits)
  qed
qed

lemma key_cands_nonempty: "list_all (\<lambda>c. fst c \<noteq> []) (key_cands d ks)"
  by (induction ks) (auto split: pyval.splits)

lemma nested_cands_nonempty: "list_all (\<lambda>c. fst c \<noteq> []) (nested_cands items)"
proof (induction items)
  case Nil then show ?case by simp
next
  case (Cons a items)
  obtain k v where a: "a = (k, v)" by (cases a)
  show ?case using Cons key_cands_nonempty by (cases v) (auto simp: a)
qed

lemma url_cands_nonempty: "list_all (\<lambda>c. fst c \<noteq> []) (url_cands urlparse parse_qs ss)"
  by (induction ss) (auto split: sum.splits option.splits)

text \<open>
  On a payload whose \<open>result\<close> entry is a dict or is absent, and on a payload that is no dict,
  \<open>extract_t_token\<close> does not raise and returns what \<open>pick_token\<close> takes from the candidates
  in tier order: the first JWT-shaped candidate of any tier, else the first plain candidate,
  else \<open>(None, None)\<close>.
\<close>

theorem extract_t_token_tier_order:
  "result_of tdata = PDict res \<Longrightarrow>
   extract_t_token urlparse parse_qs tdata = Inr (pick_token (candidates urlparse parse_qs tdata))"
proof -
  assume r: "result_of tdata = PDict res"
  let ?cs = "candidates urlparse parse_qs tdata"
  have cs: "?cs = key_cands res token_keys @ nested_cands res
            @ url_cands urlparse parse_qs (iter_strings tdata)"
    by (simp add: candidates_def r)
  have ne: "list_all (\<lambda>c. fst c \<noteq> []) ?cs"
    using key_cands_nonempty nested_cands_nonempty url_cands_nonempty by (simp add: cs)
  have e: "extract_t_token urlparse parse_qs tdata =
      (case first_choice ?cs None of
         Found t u \<Rightarrow> Inr (Some t, u)
       | Fallback fb3 \<Rightarrow>
           (case fb3 of None \<Rightarrow> Inr (None, None)
            | Some f \<Rightarrow> if f \<noteq> [] then Inr (Some f, None) else Inr (None, None)))"
    by (simp add: extract_t_token_def r cs first_choice_append try_keys_choice
        nested_keys_choice scan_urls_choice split: scan.splits)
  have f: "first_choice ?cs None =
     (case find (\<lambda>c. looks_like_jwt (PStr (fst c))) ?cs of
        Some c \<Rightarrow> Found (fst c) (snd c)
      | None \<Rightarrow> Fallback (case ?cs of [] \<Rightarrow> None | c # cs' \<Rightarrow> Some (fst c)))"
    using first_choice_choose[OF ne, of None]
    by (auto simp: fb_ok_def simp del: looks_like_jwt.simps split: option.splits)
  show ?thesis
    unfolding e f using ne
    by (cases ?cs) (auto simp: pick_token_def simp del: looks_like_jwt.simps split: option.splits)
qed


text \<open>
  The theorem at a payload with a plain token at the first tier and a JWT-shaped token at the
  second: the JWT-shaped one is returned.
\<close>

theorem extract_t_token_tier_order_witness:
  "result_of nested_jwt_payload =
     PDict [(''_t'', PStr ''plain''), (''data'', PDict [(''token'', PStr ''abc.def.ghi'')])]
   \<and> candidates (\<lambda>s. Inl ValueError) (\<lambda>s. Inr []) nested_jwt_payload
       = [(''plain'', None), (''abc.def.ghi'', None)]
   \<and> extract_t_token (\<lambda>s. Inl ValueError) (\<lambda>s. Inr []) nested_jwt_payload
       = Inr (Some ''abc.def.ghi'', None)"
proof -
  have r: "result_of nested_jwt_payload =
     PDict [(''_t'', PStr ''plain''), (''data'', PDict [(''token'', PStr ''abc.def.ghi'')])]"
    by (simp add: result_of_def nested_jwt_payload_def)
  have c: "candidates (\<lambda>s. Inl ValueError) (\<lambda>s. Inr []) nested_jwt_payload
       = [(''plain'', None), (''abc.def.ghi'', None)]"
    by code_simp
  have p: "pick_token [(''plain'', None), (''abc.def.ghi'', None)] = (Some ''abc.def.ghi'', None)"
    by code_simp
  show ?thesis
    using extract_t_token_tier_order[OF r, of "\<lambda>s. Inl ValueError" "\<lambda>s. Inr []"] r c p by simp
qed

section \<open>Properties of request_with_retries\<close>

lemma log_fields [simp]:
  "sent (log e ls w) = sent w" "slept (log e ls w) = slept w"
  "login_at (log e ls w) = login_at w" "refreshes (log e ls w) = refreshes w"
  by (simp_all add: log_def print_lines_def)


lemma attempt_once_response:
  assumes "server e (sent w @ [req]) = Resp r"
    and "\<not> refresh_triggers allow_refresh refresh_fn r"
  shows "\<exists>w'. attempt_once e req max_retries allow_refresh refresh_fn attempt last_exc r0 w =
           (if status_code r \<ge> 500 \<and> attempt < max_retries
            then Continue last_exc (Some r) (w'\<lparr>slept := slept w @ [attempt]\<rparr>)
            else Return r w')
         \<and> sent w' = sent w @ [req] \<and> slept w' = slept w
         \<and> login_at w' = login_at w \<and> refreshes w' = refreshes w"
proof -
  define w2 where "w2 = (log e (request_lines e req attempt max_retries) w)\<lparr>sent := sent w @ [req]\<rparr>"
  have sr: "session_request e req (log e (request_lines e req attempt max_retries) w) = (Resp r, w2)"
    using assms(1) by (simp add: session_request_def w2_def)
  have rr: "(if allow_refresh then refresh_and_replay e req refresh_fn r w2 else (r, w2)) = (r, w2)"
    using assms(2) by (auto simp: refresh_triggers_def refresh_and_replay_def split: option.splits)
  define w4 where "w4 = log e (response_lines r) w2"
  have "attempt_once e req max_retries allow_refresh refresh_fn attempt last_exc r0 w =
           (if status_code r \<ge> 500 \<and> attempt < max_retries
            then Continue last_exc (Some r) (w4\<lparr>slept := slept w @ [attempt]\<rparr>)
            else Return r w4)"
  proof -
    have sl: "slept w2 = slept w" by (simp add: w2_def)
    show ?thesis by (simp add: attempt_once_def Let_def sr rr sl w4_def)
  qed
  moreover have "sent w4 = sent w @ [req] \<and> slept w4 = slept w
         \<and> login_at w4 = login_at w \<and> refreshes w4 = refreshes w"
    by (simp add: w4_def w2_def)
  ultimately show ?thesis by blast
qed

lemma attempt_once_failure:
  assumes "server e (sent w @ [req]) = Raises ex" and "is_RequestException ex"
  shows "\<exists>w'. attempt_once e req max_retries allow_refresh refresh_fn attempt last_exc r0 w =
           (if attempt < max_retries
            then Continue (Some ex) r0 (w'\<lparr>slept := slept w @ [attempt]\<rparr>)
            else Raise ex w')
         \<and> sent w' = sent w @ [req] \<and> slept w' = slept w
         \<and> login_at w' = login_at w \<and> refreshes w' = refreshes w"
proof -
  define w2 where "w2 = (log e (request_lines e req attempt max_retries) w)\<lparr>sent := sent w @ [req]\<rparr>"
  have sr: "session_request e req (log e (request_lines e req attempt max_retries) w) = (Raises ex, w2)"
    using assms(1) by (simp add: session_request_def w2_def)
  define w3 where "w3 = log e (failure_lines req attempt ex) w2"
  have "attempt_once e req max_retries allow_refresh refresh_fn attempt last_exc r0 w =
           (if attempt < max_retries
            then Continue (Some ex) r0 (w3\<lparr>slept := slept w @ [attempt]\<rparr>)
            else Raise ex w3)"
  proof -
    have sl: "slept w2 = slept w" by (simp add: w2_def)
    show ?thesis using assms(2) by (simp add: attempt_once_def Let_def sr sl w3_def)
  qed
  moreover have "sent w3 = sent w @ [req] \<and> slept w3 = slept w
         \<and> login_at w3 = login_at w \<and> refreshes w3 = refreshes w"
    by (simp add: w3_def w2_def)
  ultimately show ?thesis by blast
qed

lemma request_loop_step:
  "attempt < max_retries \<Longrightarrow>
   request_loop e req max_retries allow_refresh refresh_fn attempt last_exc r0 w =
     (case attempt_once e req max_retries allow_refresh refresh_fn (attempt + 1) last_exc r0 w of
        Return r w' \<Rightarrow> (Inr r, w')
      | Raise ex w' \<Rightarrow> (Inl ex, w')
      | Continue last_exc' r' w' \<Rightarrow>
          request_loop e req max_retries allow_refresh refresh_fn (attempt + 1) last_exc' r' w')"
  by (subst request_loop.simps) simp

lemma three_responses:
  assumes s1: "server e (sent w @ [req]) = Resp r1"
    and s2: "server e (sent w @ [req, req]) = Resp r2"
    and s3: "server e (sent w @ [req, req, req]) = Resp r3"
    and c1: "status_code r1 \<ge> 500" and c2: "status_code r2 \<ge> 500"
    and n1: "\<not> refresh_triggers allow_refresh refresh_fn r1"
    and n2: "\<not> refresh_triggers allow_refresh refresh_fn r2"
    and n3: "\<not> refresh_triggers allow_refresh refresh_fn r3"
  shows "\<exists>w'. request_with_retries e req 3 allow_refresh refresh_fn w = (Inr r3, w')
           \<and> sent w' = sent w @ [req, req, req] \<and> slept w' = slept w @ [1, 2]
           \<and> refreshes w' = refreshes w"
proof -
  obtain w1 where a1: "attempt_once e req 3 allow_refresh refresh_fn 1 None None w =
        Continue None (Some r1) (w1\<lparr>slept := slept w @ [1]\<rparr>)"
    and f1: "sent w1 = sent w @ [req]" "slept w1 = slept w" "refreshes w1 = refreshes w"
    using attempt_once_response[OF s1 n1, of 3 1 None None] c1 by auto
  define v1 where "v1 = w1\<lparr>slept := slept w @ [1]\<rparr>"
  have sv1: "server e (sent v1 @ [req]) = Resp r2" using s2 f1 by (simp add: v1_def)
  obtain w2 where a2: "attempt_once e req 3 allow_refresh refresh_fn 2 None (Some r1) v1 =
        Continue None (Some r2) (w2\<lparr>slept := slept v1 @ [2]\<rparr>)"
    and f2: "sent w2 = sent v1 @ [req]" "slept w2 = slept v1" "refreshes w2 = refreshes v1"
    using attempt_once_response[OF sv1 n2, of 3 2 None "Some r1"] c2 by auto
  define v2 where "v2 = w2\<lparr>slept := slept v1 @ [2]\<rparr>"
  have sv2: "server e (sent v2 @ [req]) = Resp r3" using s3 f1 f2 by (simp add: v1_def v2_def)
  obtain w3 where a3: "attempt_once e req 3 allow_refresh refresh_fn 3 None (Some r2) v2 = Return r3 w3"
    and f3: "sent w3 = sent v2 @ [req]" "slept w3 = slept v2" "refreshes w3 = refreshes v2"
    using attempt_once_response[OF sv2 n3, of 3 3 None "Some r2"] by auto
  have l1: "request_loop e req 3 allow_refresh refresh_fn 0 None None w =
      request_loop e req 3 allow_refresh refresh_fn 1 None (Some r1) v1"
    using request_loop_step[of 0 3 e req allow_refresh refresh_fn None None w] a1
    by (simp add: v1_def)
  have l2: "request_loop e req 3 allow_refresh refresh_fn 1 None (Some r1) v1 =
      request_loop e req 3 allow_refresh refresh_fn 2 None (Some r2) v2"
    using request_loop_step[of 1 3 e req allow_refresh refresh_fn None "Some r1" v1] a2
    by (simp add: v2_def)
  have l3: "request_loop e req 3 allow_refresh refresh_fn 2 None (Some r2) v2 = (Inr r3, w3)"
    using request_loop_step[of 2 3 e req allow_refresh refresh_fn None "Some r2" v2] a3
    by simp
  have "request_with_retries e req 3 allow_refresh refresh_fn w = (Inr r3, w3)"
    by (simp only: request_with_retries_def l1 l2 l3)
  moreover have "sent w3 = sent w @ [req, req, req] \<and> slept w3 = slept w @ [1, 2]
           \<and> refreshes w3 = refreshes w"
    using f1 f2 f3 by (simp add: v1_def v2_def)
  ultimately show ?thesis by blast
qed

lemma three_failures:
  assumes s1: "server e (sent w @ [req]) = Raises x1"
    and s2: "server e (sent w @ [req, req]) = Raises x2"
    and s3: "server e (sent w @ [req, req, req]) = Raises x3"
    and c1: "is_RequestException x1" and c2: "is_RequestException x2"
    and c3: "is_RequestException x3"
  shows "\<exists>w'. request_with_retries e req 3 allow_refresh refresh_fn w = (Inl x3, w')
           \<and> sent w' = sent w @ [req, req, req] \<and> slept w' = slept w @ [1, 2]
           \<and> refreshes w' = refreshes w"
proof -
  obtain w1 where a1: "attempt_once e req 3 allow_refresh refresh_fn 1 None None w =
        Continue (Some x1) None (w1\<lparr>slept := slept w @ [1]\<rparr>)"
    and f1: "sent w1 = sent w @ [req]" "slept w1 = slept w" "refreshes w1 = refreshes w"
    using attempt_once_failure[OF s1 c1, of 3 allow_refresh refresh_fn 1 None None] by auto
  define v1 where "v1 = w1\<lparr>slept := slept w @ [1]\<rparr>"
  have sv1: "server e (sent v1 @ [req]) = Raises x2" using s2 f1 by (simp add: v1_def)
  obtain w2 where a2: "attempt_once e req 3 allow_refresh refresh_fn 2 (Some x1) None v1 =
        Continue (Some x2) None (w2\<lparr>slept := slept v1 @ [2]\<rparr>)"
    and f2: "sent w2 = sent v1 @ [req]" "slept w2 = slept v1" "refreshes w2 = refreshes v1"
    using attempt_once_failure[OF sv1 c2, of 3 allow_refresh refresh_fn 2 "Some x1" None] by auto
  define v2 where "v2 = w2\<lparr>slept := slept v1 @ [2]\<rparr>"
  have sv2: "server e (sent v2 @ [req]) = Raises x3" using s3 f1 f2 by (simp add: v1_def v2_def)
  obtain w3 where a3: "attempt_once e req 3 allow_refresh refresh_fn 3 (Some x2) None v2 = Raise x3 w3"
    and f3: "sent w3 = sent v2 @ [req]" "slept w3 = slept v2" "refreshes w3 = refreshes v2"
    using attempt_once_failure[OF sv2 c3, of 3 allow_refresh refresh_fn 3 "Some x2" None] by auto
  have l1: "request_loop e req 3 allow_refresh refresh_fn 0 None None w =
      request_loop e req 3 allow_refresh refresh_fn 1 (Some x1) None v1"
    using request_loop_step[of 0 3 e req allow_refresh refresh_fn None None w] a1
    by (simp add: v1_def)
  have l2: "request_loop e req 3 allow_refresh refresh_fn 1 (Some x1) None v1 =
      request_loop e req 3 allow_refresh refresh_fn 2 (Some x2) None v2"
    using request_loop_step[of 1 3 e req allow_refresh refresh_fn "Some x1" None v1] a2
    by (simp add: v2_def)
  have l3: "request_loop e req 3 allow_refresh refresh_fn 2 (Some x2) None v2 = (Inl x3, w3)"
    using request_loop_step[of 2 3 e req allow_refresh refresh_fn "Some x2" None v2] a3
    by simp
  have "request_with_retries e req 3 allow_refresh refresh_fn w = (Inl x3, w3)"
    by (simp only: request_with_retries_def l1 l2 l3)
  moreover have "sent w3 = sent w @ [req, req, req] \<and> slept w3 = slept w @ [1, 2]
           \<and> refreshes w3 = refreshes w"
    using f1 f2 f3 by (simp add: v1_def v2_def)
  ultimately show ?thesis by blast
qed

text \<open>
  Claim C2, as amended. With \<open>max_retries = 3\<close> and no refresh triggered: when the first two
  responses have a status of 500 or more, the call returns the third response, whatever its
  status (200, or 500 again), after exactly three requests and sleeps of \<open>backoff ** 1\<close> and
  \<open>backoff ** 2\<close>; and when the three requests raise \<open>RequestException\<close>s, the call raises the
  third of them after exactly three requests.
\<close>

theorem request_with_retries_three_attempts:
  "(server e (sent w @ [req]) = Resp r1 \<and> server e (sent w @ [req, req]) = Resp r2
      \<and> server e (sent w @ [req, req, req]) = Resp r3
      \<and> 500 \<le> status_code r1 \<and> 500 \<le> status_code r2
      \<and> \<not> refresh_triggers allow_refresh refresh_fn r1
      \<and> \<not> refresh_triggers allow_refresh refresh_fn r2
      \<and> \<not> refresh_triggers allow_refresh refresh_fn r3
    \<longrightarrow> fst (request_with_retries e req 3 allow_refresh refresh_fn w) = Inr r3
        \<and> sent (snd (request_with_retries e req 3 allow_refresh refresh_fn w))
            = sent w @ [req, req, req]
        \<and> slept (snd (request_with_retries e req 3 allow_refresh refresh_fn w))
            = slept w @ [1, 2])
   \<and> (server e (sent w @ [req]) = Raises x1 \<and> server e (sent w @ [req, req]) = Raises x2
      \<and> server e (sent w @ [req, req, req]) = Raises x3
      \<and> is_RequestException x1 \<and> is_RequestException x2 \<and> is_RequestException x3
    \<longrightarrow> fst (request_with_retries e req 3 allow_refresh refresh_fn w) = Inl x3
        \<and> sent (snd (request_with_retries e req 3 allow_refresh refresh_fn w))
            = sent w @ [req, req, req]
        \<and> slept (snd (request_with_retries e req 3 allow_refresh refresh_fn w))
            = slept w @ [1, 2])"
proof (intro conjI impI)
  assume h: "server e (sent w @ [req]) = Resp r1 \<and> server e (sent w @ [req, req]) = Resp r2
      \<and> server e (sent w @ [req, req, req]) = Resp r3
      \<and> 500 \<le> status_code r1 \<and> 500 \<le> status_code r2
      \<and> \<not> refresh_triggers allow_refresh refresh_fn r1
      \<and> \<not> refresh_triggers allow_refresh refresh_fn r2
      \<and> \<not> refresh_triggers allow_refresh refresh_fn r3"
  then obtain w' where r: "request_with_retries e req 3 allow_refresh refresh_fn w = (Inr r3, w')"
    "sent w' = sent w @ [req, req, req]" "slept w' = slept w @ [1, 2]"
    using three_responses[of e w req r1 r2 r3 allow_refresh refresh_fn] by blast
  show "fst (request_with_retries e req 3 allow_refresh refresh_fn w) = Inr r3" using r by simp
  show "sent (snd (request_with_retries e req 3 allow_refresh refresh_fn w)) = sent w @ [req, req, req]"
    using r by simp
  show "slept (snd (request_with_retries e req 3 allow_refresh refresh_fn w)) = slept w @ [1, 2]"
    using r by simp
next
  assume h: "server e (sent w @ [req]) = Raises x1 \<and> server e (sent w @ [req, req]) = Raises x2
      \<and> server e (sent w @ [req, req, req]) = Raises x3
      \<and> is_RequestException x1 \<and> is_RequestException x2 \<and> is_RequestException x3"
  then obtain w' where r: "request_with_retries e req 3 allow_refresh refresh_fn w = (Inl x3, w')"
    "sent w' = sent w @ [req, req, req]" "slept w' = slept w @ [1, 2]"
    using three_failures[of e w req x1 x2 x3 allow_refresh refresh_fn] by blast
  show "fst (request_with_retries e req 3 allow_refresh refresh_fn w) = Inl x3" using r by simp
  show "sent (snd (request_with_retries e req 3 allow_refresh refresh_fn w)) = sent w @ [req, req, req]"
    using r by simp
  show "slept (snd (request_with_retries e req 3 allow_refresh refresh_fn w)) = slept w @ [1, 2]"
    using r by simp
qed

text \<open>
  The theorem at the canned responses 500, 500, 200 and at three timeouts.
\<close>

theorem request_with_retries_three_attempts_witness:
  "fst (request_with_retries canned_500_500_200 get_request 3 False None world0)
     = Inr (plain_response 200)
   \<and> sent (snd (request_with_retries canned_500_500_200 get_request 3 False None world0))
     = [get_request, get_request, get_request]
   \<and> slept (snd (request_with_retries canned_500_500_200 get_request 3 False None world0)) = [1, 2]
   \<and> fst (request_with_retries canned_failures get_request 3 False None world0)
     = Inl (RequestException ''timeout 3'')
   \<and> sent (snd (request_with_retries canned_failures get_request 3 False None world0))
     = [get_request, get_request, get_request]"
proof -
  have a: "server canned_500_500_200 (sent world0 @ [get_request]) = Resp (plain_response 500)
      \<and> server canned_500_500_200 (sent world0 @ [get_request, get_request]) = Resp (plain_response 500)
      \<and> server canned_500_500_200 (sent world0 @ [get_request, get_request, get_request])
          = Resp (plain_response 200)
      \<and> 500 \<le> status_code (plain_response 500)
      \<and> \<not> refresh_triggers False None (plain_response 500)
      \<and> \<not> refresh_triggers False None (plain_response 200)"
    by (simp add: canned_500_500_200_def quiet_env_def canned_def world0_def plain_response_def json_response_def
        refresh_triggers_def)
  have b: "server canned_failures (sent world0 @ [get_request]) = Raises (RequestException ''timeout 1'')
      \<and> server canned_failures (sent world0 @ [get_request, get_request])
          = Raises (RequestException ''timeout 2'')
      \<and> server canned_failures (sent world0 @ [get_request, get_request, get_request])
          = Raises (RequestException ''timeout 3'')"
    by (simp add: canned_failures_def quiet_env_def canned_def world0_def)
  have s: "sent world0 = []" "slept world0 = []" by (simp_all add: world0_def)
  show ?thesis
    using request_with_retries_three_attempts[of canned_500_500_200 world0 get_request
        "plain_response 500" "plain_response 500" "plain_response 200" False None,
        THEN conjunct1]
      request_with_retries_three_attempts[of canned_failures world0 get_request _ _ _ _ _
        "RequestException ''timeout 1''" "RequestException ''timeout 2''"
        "RequestException ''timeout 3''", THEN conjunct2, of False None]
      a b s
    by simp
qed

text \<open>
  Claim C2 as stated fails: three responses with status 500 do not make the call raise; it
  returns the third of them, after three requests.
\<close>

theorem request_with_retries_counterexample:
  "fst (request_with_retries canned_500_500_500 get_request 3 False None world0)
     = Inr (plain_response 500)
   \<and> sent (snd (request_with_retries canned_500_500_500 get_request 3 False None world0))
     = [get_request, get_request, get_request]"
  by (simp add: request_with_retries_def request_loop.simps attempt_once_def session_request_def
      log_def canned_500_500_500_def quiet_env_def canned_def plain_response_def json_response_def world0_def)

text \<open>
  Claim C4 fails on the code at the remote side \<open>expiring_server\<close>: within one call of
  \<open>request_with_retries\<close> (made by \<open>me\<close>) the refresh callback runs twice, once in each of
  two attempts; and all four requests of the call, the two replays among them, carry the
  \<open>login-at\<close> header the call was given, while the client's token has been refreshed.
\<close>

theorem refresh_twice_and_stale_replay:
  "refreshes (snd (client_me (quiet_env expiring_server) world0)) = 2
   \<and> map req_headers (filter (\<lambda>r. req_url r = API_BASE @ ''/v1/login/me'')
        (sent (snd (client_me (quiet_env expiring_server) world0))))
      = [PDict [(''login-at'', PStr ''old'')], PDict [(''login-at'', PStr ''old'')],
         PDict [(''login-at'', PStr ''old'')], PDict [(''login-at'', PStr ''old'')]]
   \<and> login_at (snd (client_me (quiet_env expiring_server) world0)) = PStr ''new2''"
  by (simp add: client_me_def client_refresh_def request_with_retries_def request_loop.simps
      attempt_once_def session_request_def log_def quiet_env_def
      canned_def expiring_server_def expired_response_def json_response_def plain_response_def
      world0_def refresh_and_replay_def token_expired_def dict_get_def merge_login_at_def
      raise_for_status_def API_BASE_def Let_def numeral_2_eq_2)


text \<open>
  One attempt with a refresh, logging off: when the response says that the token has expired,
  the callback returns and the replayed request is answered with a status below 500, the
  call has run the callback once, has sent the same request once more, and returns the
  answer to the replay.
\<close>

theorem refresh_once_and_replay:
  assumes "\<not> HTTP_LOG e" and "0 < max_retries"
    and "server e (sent w @ [req]) = Resp r1" and "token_expired r1"
    and "f (w\<lparr>sent := sent w @ [req], refreshes := refreshes w + 1\<rparr>) = (Inr (), w1)"
    and "server e (sent w1 @ [req]) = Resp r2" and "status_code r2 < 500"
  shows "request_with_retries e req max_retries True (Some f) w
           = (Inr r2, w1\<lparr>sent := sent w1 @ [req]\<rparr>)"
proof -
  have l: "log e ls v = v" for ls v using assms(1) by (simp add: log_def)
  have a: "attempt_once e req max_retries True (Some f) 1 None None w
             = Return r2 (w1\<lparr>sent := sent w1 @ [req]\<rparr>)"
    using assms(3-7)
    by (simp add: attempt_once_def l session_request_def refresh_and_replay_def Let_def)
  show ?thesis
    using request_loop_step[of 0 max_retries e req True "Some f" None None w] assms(2) a
    by (simp add: request_with_retries_def)
qed

text \<open>
  The theorem at \<open>me\<close> against \<open>refreshing_server\<close>: three requests are sent, the refresh
  between the request and its replay, and the replay has the headers of the first request.
\<close>

theorem refresh_once_and_replay_witness:
  "token_expired expired_response
   \<and> status_code (plain_response 200) < 500
   \<and> client_refresh (quiet_env refreshing_server)
         (world0\<lparr>sent := sent world0 @ [me_request], refreshes := refreshes world0 + 1\<rparr>)
       = (Inr (), \<lparr>sent = [me_request, refresh_request], slept = [], printed = [],
                    login_at = PStr ''new1'', refreshes = 1\<rparr>)
   \<and> request_with_retries (quiet_env refreshing_server) me_request 3 True
         (Some (client_refresh (quiet_env refreshing_server))) world0
       = (Inr (plain_response 200),
          \<lparr>sent = [me_request, refresh_request, me_request], slept = [], printed = [],
             login_at = PStr ''new1'', refreshes = 1\<rparr>)"
proof -
  let ?e = "quiet_env refreshing_server"
  let ?w1 = "\<lparr>sent = [me_request, refresh_request], slept = [], printed = [],
                    login_at = PStr ''new1'', refreshes = 1\<rparr>"
  have h1: "\<not> HTTP_LOG ?e" by (simp add: quiet_env_def)
  have h3: "server ?e (sent world0 @ [me_request]) = Resp expired_response"
    by (simp add: quiet_env_def refreshing_server_def canned_def world0_def)
  have h4: "token_expired expired_response"
    by (simp add: token_expired_def expired_response_def json_response_def dict_get_def)
  have h5: "client_refresh ?e
         (world0\<lparr>sent := sent world0 @ [me_request], refreshes := refreshes world0 + 1\<rparr>)
       = (Inr (), ?w1)"
    by (simp add: client_refresh_def request_with_retries_def request_loop.simps
        attempt_once_def session_request_def log_def quiet_env_def canned_def
        refreshing_server_def json_response_def world0_def merge_login_at_def
        raise_for_status_def refresh_request_def Let_def)
  have h6: "server ?e (sent ?w1 @ [me_request]) = Resp (plain_response 200)"
    by (simp add: quiet_env_def refreshing_server_def canned_def)
  have h7: "status_code (plain_response 200) < 500"
    by (simp add: plain_response_def json_response_def)
  show ?thesis
    using refresh_once_and_replay[of ?e 3 world0 me_request expired_response
        "client_refresh ?e" ?w1 "plain_response 200", OF h1 _ h3 h4 h5 h6 h7] h4 h5 h7
    by simp
qed


section \<open>Properties of the masking\<close>




















section \<open>Properties of goto_page\<close>

lemma nth_decimal: "m < 10 \<Longrightarrow> is_decimal (''0123456789'' ! m)"
  unfolding is_decimal_def by (rule nth_mem) simp

lemma digit_value_nth: "m < 10 \<Longrightarrow> digit_value (''0123456789'' ! m) = m"
  by (auto simp: numeral_eq_Suc less_Suc_eq digit_value_def)

lemma digits_of_decimal: "list_all is_decimal (digits_of n) \<and> digits_of n \<noteq> []"
proof (induction n rule: digits_of.induct)
  case (1 n)
  show ?case
  proof (cases "n < 10")
    case True
    then show ?thesis using nth_decimal[of n] by (subst digits_of.simps, subst digits_of.simps) simp
  next
    case False
    then show ?thesis using 1 nth_decimal[of "n mod 10"]
      by (subst digits_of.simps, subst (2) digits_of.simps) simp
  qed
qed

lemma digits_value_snoc: "digits_value (xs @ [c]) = 10 * digits_value xs + digit_value c"
  by (simp add: digits_value_def)

lemma digits_value_digits_of: "digits_value (digits_of n) = n"
proof (induction n rule: digits_of.induct)
  case (1 n)
  show ?case
  proof (cases "n < 10")
    case True
    then show ?thesis using digit_value_nth[of n]
      by (subst digits_of.simps) (simp add: digits_value_def)
  next
    case False
    then show ?thesis using 1 digit_value_nth[of "n mod 10"]
      by (subst digits_of.simps) (simp add: digits_value_snoc)
  qed
qed

lemma decimal_not_space: "is_decimal c \<Longrightarrow> \<not> is_space c \<and> c \<noteq> CHR ''_'' \<and> c \<noteq> CHR ''-'' \<and> c \<noteq> CHR ''+''"
  by (auto simp: is_decimal_def is_space_def)

lemma dropWhile_hd: "xs \<noteq> [] \<Longrightarrow> \<not> P (hd xs) \<Longrightarrow> dropWhile P xs = xs"
  by (cases xs) auto

lemma strip_id: "s \<noteq> [] \<Longrightarrow> \<not> is_space (hd s) \<Longrightarrow> \<not> is_space (last s) \<Longrightarrow> py_strip s = s"
proof -
  assume a: "s \<noteq> []" "\<not> is_space (hd s)" "\<not> is_space (last s)"
  have 1: "dropWhile is_space s = s" using a by (simp add: dropWhile_hd)
  have "hd (rev s) = last s" using a by (simp add: hd_rev)
  then have 2: "dropWhile is_space (rev s) = rev s" using a by (simp add: dropWhile_hd)
  show ?thesis by (simp add: py_strip_def 1 2)
qed

lemma no_double_underscore_decimal: "list_all is_decimal s \<Longrightarrow> no_double_underscore s"
proof (induction s rule: no_double_underscore.induct)
  case (1 a b cs)
  then show ?case using decimal_not_space[of a] by simp
qed simp_all

lemma decimals_literal:
  assumes "list_all is_decimal s" "s \<noteq> []" "length s \<le> max_str_digits"
  shows "py_strip s = s" "py_isdigit s" "py_int s = Inr (int (digits_value s))"
proof -
  have h: "is_decimal (hd s)" "is_decimal (last s)" using assms by (auto simp: list_all_iff)
  show st: "py_strip s = s" using strip_id[of s] assms h decimal_not_space by blast
  show "py_isdigit s" using assms by (auto simp: py_isdigit_def list_all_iff)
  have lit: "int_literal s"
    using assms h no_double_underscore_decimal[of s] by (auto simp: int_literal_def list_all_iff)
  have f: "filter (\<lambda>c. c \<noteq> CHR ''_'') s = s"
    using assms decimal_not_space by (auto simp: filter_id_conv list_all_iff)
  have sg: "hd s \<noteq> CHR ''-''" "hd s \<noteq> CHR ''+''" using h decimal_not_space by blast+
  show "py_int s = Inr (int (digits_value s))"
    using lit f sg assms(2,3) by (simp add: py_int_def st Let_def)
qed

lemma str_int_roundtrip:
  assumes "0 \<le> p" "str_digits_ok p"
  shows "py_strip (py_str_int p) = py_str_int p" "py_isdigit (py_str_int p)"
        "py_int (py_str_int p) = Inr p" "py_str_int p \<noteq> []"
proof -
  have e: "py_str_int p = digits_of (nat p)" using assms by (simp add: py_str_int_def)
  have k: "length (digits_of (nat p)) \<le> max_str_digits"
    using assms by (simp add: str_digits_ok_def)
  note d = digits_of_decimal[of "nat p"]
  show "py_strip (py_str_int p) = py_str_int p"
    using decimals_literal(1)[of "digits_of (nat p)"] d e k by simp
  show "py_isdigit (py_str_int p)"
    using decimals_literal(2)[of "digits_of (nat p)"] d e k by simp
  show "py_int (py_str_int p) = Inr p"
    using decimals_literal(3)[of "digits_of (nat p)"] d e k digits_value_digits_of[of "nat p"] assms(1)
    by simp
  show "py_str_int p \<noteq> []" using d e by simp
qed


lemma indicator_shows_page:
  assumes "indicator_shows u p target" "0 \<le> target" "str_digits_ok target"
  shows "(case current_text u p of Inl e \<Rightarrow> False | Inr cur_txt \<Rightarrow> shows_page cur_txt target)"
    and "get_current_page_num u p = Some target"
proof -
  from assms(1) obtain t where t: "current_text u p = Inr (Some t)" "py_strip t = py_str_int target"
    by (auto simp: indicator_shows_def split: sum.splits option.splits)
  note r = str_int_roundtrip[OF assms(2,3)]
  have ne: "t \<noteq> []" using t(2) r(4) by (auto simp: py_strip_def)
  show "(case current_text u p of Inl e \<Rightarrow> False | Inr cur_txt \<Rightarrow> shows_page cur_txt target)"
    using t r ne by (simp add: shows_page_def)
  show "get_current_page_num u p = Some target"
    using t r by (simp add: get_current_page_num_def)
qed

lemma goto_page_noop:
  assumes "indicator_shows u p target" "0 \<le> target" "str_digits_ok target"
  shows "goto_page u target p = (True, p, [])" "goto_page_epub u target p = (True, p, [])"
  using indicator_shows_page[OF assms] by (simp_all add: goto_page_def goto_page_epub_def)

lemma click_and_wait_shows:
  "wait_sound u target \<Longrightarrow> click_and_wait u target p acts = (True, p', acts') \<Longrightarrow>
   indicator_shows u p' target"
  by (auto simp: click_and_wait_def wait_sound_def split: prod.splits sum.splits)

lemma step_groups_shows:
  "wait_sound u target \<Longrightarrow> step_groups u target n p acts = (True, p', acts') \<Longrightarrow>
   indicator_shows u p' target"
proof (induction n arbitrary: p acts)
  case 0 then show ?case by simp
next
  case (Suc n)
  show ?case using Suc.prems(2) Suc.IH[OF Suc.prems(1)] click_and_wait_shows[OF Suc.prems(1)]
    by (auto split: sum.splits bool.splits prod.splits if_splits)
qed

lemma step_groups_epub_shows:
  "wait_sound u target \<Longrightarrow> step_groups_epub u target n p acts = (True, p', acts') \<Longrightarrow>
   indicator_shows u p' target"
proof (induction n arbitrary: p acts)
  case 0 then show ?case by simp
next
  case (Suc n)
  show ?case using Suc.prems(2) Suc.IH[OF Suc.prems(1)] click_and_wait_shows[OF Suc.prems(1)]
    by (auto split: sum.splits bool.splits prod.splits if_splits)
qed

lemma count_of_ok:
  "number_count_of u target p = Inr c \<Longrightarrow> str_digits_ok target"
  "has_target_of u target p = Inr b \<Longrightarrow> str_digits_ok target"
  by (auto simp: number_count_of_def has_target_of_def py_str_def split: if_splits)

lemma step_groups_ok:
  "step_groups u target n p acts = (True, p', acts') \<Longrightarrow> str_digits_ok target"
proof (induction n arbitrary: p acts)
  case 0 then show ?case by simp
next
  case (Suc n)
  show ?case
  proof (cases "has_target_of u target p")
    case (Inl e)
    then show ?thesis using Suc by simp
  next
    case (Inr b)
    then show ?thesis by (rule count_of_ok(2))
  qed
qed

lemma step_groups_epub_ok:
  "step_groups_epub u target n p acts = (True, p', acts') \<Longrightarrow> str_digits_ok target"
proof (induction n arbitrary: p acts)
  case 0 then show ?case by simp
next
  case (Suc n)
  show ?case using Suc.prems Suc.IH count_of_ok(1)[of u target]
    by (auto split: sum.splits bool.splits prod.splits if_splits)
qed

lemma goto_page_shows:
  assumes "wait_sound u target" "0 \<le> target" "goto_page u target p = (True, p', acts)"
  shows "goto_page u target p' = (True, p', [])"
proof (cases "(case current_text u p of Inl e \<Rightarrow> False | Inr cur_txt \<Rightarrow> shows_page cur_txt target)")
  case True
  then have "p' = p" using assms(3) by (simp add: goto_page_def)
  then show ?thesis using True by (simp add: goto_page_def)
next
  case False
  have i: "indicator_shows u p' target"
    using assms(3) False click_and_wait_shows[OF assms(1)] step_groups_shows[OF assms(1)]
    by (auto simp: goto_page_def split: sum.splits bool.splits prod.splits if_splits)
  have k: "str_digits_ok target"
    using assms(3) False count_of_ok(1)[of u target p] step_groups_ok[of u target]
    by (auto simp: goto_page_def split: sum.splits bool.splits prod.splits if_splits)
  show ?thesis using i assms(2) k by (rule goto_page_noop(1))
qed

lemma goto_page_epub_shows:
  assumes "wait_sound u target" "0 \<le> target" "goto_page_epub u target p = (True, p', acts)"
  shows "goto_page_epub u target p' = (True, p', [])"
proof (cases "get_current_page_num u p = Some target")
  case True
  then have "p' = p" using assms(3) by (simp add: goto_page_epub_def)
  then show ?thesis using True by (simp add: goto_page_epub_def)
next
  case False
  have i: "indicator_shows u p' target"
    using assms(3) False click_and_wait_shows[OF assms(1)] step_groups_epub_shows[OF assms(1)]
    by (auto simp: goto_page_epub_def split: sum.splits bool.splits prod.splits if_splits)
  have k: "str_digits_ok target"
    using assms(3) False count_of_ok(1)[of u target p] step_groups_epub_ok[of u target]
    by (auto simp: goto_page_epub_def split: sum.splits bool.splits prod.splits if_splits)
  show ?thesis using i assms(2) k by (rule goto_page_noop(2))
qed

lemma str_digits_ok_9: "py_str 9 = Inr ''9''"
  by (simp add: py_str_def str_digits_ok_def max_str_digits_def py_str_int_def digits_of.simps)

lemma stuck_bar_fields:
  "has_target_of stuck_bar 9 p = Inr False" "number_count_of stuck_bar 9 p = Inr 0"
  "arrow_count stuck_bar p = Inr 1" "click_arrow stuck_bar p = (Inr (), Suc p)"
  "wait_timeout stuck_bar p = (Inr (), p)" "current_text stuck_bar p = Inr (Some ''1'')"
  by (simp_all add: has_target_of_def number_count_of_def stuck_bar_def str_digits_ok_9)

lemma step_groups_stuck:
  "step_groups stuck_bar 9 n p acts = (False, p + n, acts @ replicate n ClickArrow)"
  by (induction n arbitrary: p acts) (simp_all add: stuck_bar_fields replicate_app_Cons_same)

lemma step_groups_epub_stuck:
  "step_groups_epub stuck_bar 9 n p acts = (False, p + n, acts @ replicate n ClickArrow)"
  by (induction n arbitrary: p acts) (simp_all add: stuck_bar_fields replicate_app_Cons_same)

lemma stuck_bar_shows_1:
  "\<not> shows_page (Some ''1'') 9" "get_current_page_num stuck_bar p \<noteq> Some 9"
proof -
  have t: "py_strip ''1'' = ''1''" by (simp add: py_strip_def is_space_def)
  have i: "py_int ''1'' = Inr 1"
    by (simp add: py_int_def py_strip_def is_space_def int_literal_def is_decimal_def
        digits_value_def digit_value_def max_str_digits_def Let_def)
  show "\<not> shows_page (Some ''1'') 9" by (simp add: shows_page_def t i)
  show "get_current_page_num stuck_bar p \<noteq> Some 9"
    by (simp add: get_current_page_num_def stuck_bar_fields t i)
qed

lemma goto_page_stuck:
  "goto_page stuck_bar 9 p = (False, p + 40, replicate 40 ClickArrow)"
  "goto_page_epub stuck_bar 9 p = (False, p + 60, replicate 60 ClickArrow)"
  by (simp_all add: goto_page_def goto_page_epub_def stuck_bar_fields stuck_bar_shows_1
        step_groups_stuck step_groups_epub_stuck)


text \<open>
  Claim C8, as amended. When the page indicator already shows the target page, \<open>goto_page\<close>
  (in both scripts) returns success at once, with the page unchanged and no click issued; and
  after a call that returned success, a second call with the same target issues no click.
  Page numbers are not negative and have at most 4300 digits.
\<close>

theorem goto_page_idempotent:
  "(indicator_shows u p target \<and> 0 \<le> target \<and> str_digits_ok target \<longrightarrow>
      goto_page u target p = (True, p, []) \<and> goto_page_epub u target p = (True, p, []))
   \<and> (wait_sound u target \<and> 0 \<le> target \<and> goto_page u target p = (True, p', acts) \<longrightarrow>
      goto_page u target p' = (True, p', []))
   \<and> (wait_sound u target \<and> 0 \<le> target \<and> goto_page_epub u target p = (True, q', acts') \<longrightarrow>
      goto_page_epub u target q' = (True, q', []))"
  using goto_page_noop[of u p target] goto_page_shows[of u target p p' acts]
    goto_page_epub_shows[of u target p q' acts']
  by blast

text \<open>
  The theorem at a bar of five pages: from page 1 the first call clicks the button 3, the
  second call clicks nothing.
\<close>

theorem goto_page_idempotent_witness:
  "wait_sound five_pages 3 \<and> (0::int) \<le> 3 \<and> str_digits_ok 3
   \<and> indicator_shows five_pages 3 3
   \<and> goto_page five_pages 3 1 = (True, 3, [ClickNumber 3])
   \<and> goto_page five_pages 3 3 = (True, 3, [])
   \<and> goto_page_epub five_pages 3 1 = (True, 3, [ClickNumber 3])
   \<and> goto_page_epub five_pages 3 3 = (True, 3, [])"
proof -
  have i: "indicator_shows five_pages 3 3"
    by (simp add: indicator_shows_def five_pages_def py_strip_def py_str_int_def digits_of.simps
        is_space_def)
  have w: "wait_sound five_pages 3"
    unfolding wait_sound_def
  proof (intro allI impI)
    fix p p' :: int
    assume "wait_current five_pages 3 p = (Inr (), p')"
    then have "p' = 3" by (simp add: five_pages_def split: if_splits)
    then show "indicator_shows five_pages p' 3" using i by simp
  qed
  have t: "py_int (py_strip '' 1 '') = Inr 1" "py_strip '' 1 '' = ''1''"
    by (simp_all add: py_int_def py_strip_def is_space_def int_literal_def is_decimal_def
        digits_value_def digit_value_def max_str_digits_def Let_def)
  have k: "str_digits_ok 3"
    by (simp add: str_digits_ok_def max_str_digits_def digits_of.simps)
  have s3: "py_str 3 = Inr ''3''"
    using k by (simp add: py_str_def py_str_int_def digits_of.simps)
  have g: "goto_page five_pages 3 1 = (True, 3, [ClickNumber 3])"
    using t s3 by (simp add: goto_page_def five_pages_def shows_page_def click_and_wait_def
        number_count_of_def py_str_int_def digits_of.simps)
  have h: "goto_page_epub five_pages 3 1 = (True, 3, [ClickNumber 3])"
    using t s3 by (simp add: goto_page_epub_def five_pages_def get_current_page_num_def
        click_and_wait_def number_count_of_def py_str_int_def digits_of.simps)
  show ?thesis
    using goto_page_idempotent[of five_pages 3 3]
      goto_page_idempotent[of five_pages 1 3 3 "[ClickNumber 3]" 3 "[ClickNumber 3]"] i w g h k
    by simp
qed

text \<open>
  Claim C8 as stated fails: a call that did not reach the target is followed by a second call
  that navigates again. On a bar stuck on page 1, whose waits are sound, \<open>goto_page\<close> for page
  9 clicks the arrow 40 times and returns \<open>False\<close>, and the second call clicks it 40 times
  more (60 and 60 in novelpia_epub.py).
\<close>

theorem goto_page_counterexample:
  "wait_sound stuck_bar 9
   \<and> goto_page stuck_bar 9 0 = (False, 40, replicate 40 ClickArrow)
   \<and> goto_page stuck_bar 9 40 = (False, 80, replicate 40 ClickArrow)
   \<and> goto_page_epub stuck_bar 9 0 = (False, 60, replicate 60 ClickArrow)
   \<and> goto_page_epub stuck_bar 9 60 = (False, 120, replicate 60 ClickArrow)"
proof -
  have w: "wait_sound stuck_bar 9" by (simp add: wait_sound_def stuck_bar_def)
  show ?thesis
    using w goto_page_stuck(1)[of 0] goto_page_stuck(1)[of 40] goto_page_stuck(2)[of 0]
      goto_page_stuck(2)[of 60]
    by simp
qed


end
